theory Spec2Isabelle
  imports Complex_Main "HOL-Library.Monad_Syntax"
begin

section \<open>Board engine (game\_board.py)\<close>

subsection \<open>Data model\<close>

text \<open>
  A cell of the board holds one of the five one-character strings of the class docstring:
  \<^verbatim>\<open>'.'\<close> (empty), \<^verbatim>\<open>'w'\<close>, \<^verbatim>\<open>'W'\<close>, \<^verbatim>\<open>'b'\<close>, \<^verbatim>\<open>'B'\<close>. A side is \<^verbatim>\<open>'w'\<close> or \<^verbatim>\<open>'b'\<close>.
\<close>

datatype piece = Empty | WMan | WKing | BMan | BKing

datatype side = White | Black

type_synonym Coordinate = "int \<times> int"

text \<open>\<^verbatim>\<open>self.board\<close>: a list of rows, each a list of cells.\<close>

type_synonym grid = "piece list list"

record Move =
  StartingMoveLocation :: Coordinate
  TargetingMoveLocation :: Coordinate
  path :: "Coordinate list"
  is_capture :: bool
  captured :: "Coordinate list"

text \<open>\<^verbatim>\<open>self.size = 8\<close>.\<close>

definition bsize :: int where
  "bsize = 8"

text \<open>
  The board of a \<^verbatim>\<open>GameBoard\<close> is built by \<^verbatim>\<open>_InitialBoard\<close> and copied by \<^verbatim>\<open>Clone\<close>; no
  operation of the class changes its dimensions, so it always has 8 rows of 8 cells.
\<close>

definition wf_board :: "grid \<Rightarrow> bool" where
  "wf_board b \<longleftrightarrow> length b = 8 \<and> (\<forall>row \<in> set b. length row = 8)"

text \<open>\<^verbatim>\<open>_InitialBoard\<close>: the two nested loops over \<^verbatim>\<open>range(3)\<close>/\<^verbatim>\<open>range(5, 8)\<close> and
  \<^verbatim>\<open>range(self.size)\<close>, writing a man on each square with \<^verbatim>\<open>(r + c) % 2 == 1\<close>.\<close>

definition fill_rows :: "piece \<Rightarrow> nat list \<Rightarrow> grid \<Rightarrow> grid" where
  "fill_rows p rs b =
     fold (\<lambda>r b1. fold (\<lambda>c b2. if (r + c) mod 2 = 1 then b2[r := (b2 ! r)[c := p]] else b2)
                        [0..<8] b1) rs b"

definition InitialBoard :: grid where
  "InitialBoard =
     fill_rows WMan [5..<8] (fill_rows BMan [0..<3] (replicate 8 (replicate 8 Empty)))"

text \<open>\<^verbatim>\<open>Clone\<close> copies every row; on immutable values the copy is the value itself.\<close>

definition Clone :: "grid \<Rightarrow> grid" where
  "Clone b = map (\<lambda>row. row) b"

definition Inside :: "int \<Rightarrow> int \<Rightarrow> bool" where
  "Inside r c \<longleftrightarrow> 0 \<le> r \<and> r < bsize \<and> 0 \<le> c \<and> c < bsize"

text \<open>
  \<^verbatim>\<open>self.board[r][c]\<close> at indices that the source has checked with \<^verbatim>\<open>Inside\<close> or takes from
  \<^verbatim>\<open>range(self.size)\<close>: on such indices the subscript neither wraps nor raises.
\<close>

definition cell :: "grid \<Rightarrow> int \<Rightarrow> int \<Rightarrow> piece" where
  "cell b r c = b ! nat r ! nat c"

definition put :: "grid \<Rightarrow> int \<Rightarrow> int \<Rightarrow> piece \<Rightarrow> grid" where
  "put b r c p = b[nat r := (b ! nat r)[nat c := p]]"

text \<open>
  A Python list subscript at an unchecked index: a negative index counts from the end,
  and an index outside \<^verbatim>\<open>-len .. len-1\<close> raises \<^verbatim>\<open>IndexError\<close> (here \<open>None\<close>).
\<close>

definition py_index :: "'a list \<Rightarrow> int \<Rightarrow> nat option" where
  "py_index xs i =
     (if 0 \<le> i \<and> i < int (length xs) then Some (nat i)
      else if - int (length xs) \<le> i \<and> i < 0 then Some (nat (i + int (length xs)))
      else None)"

text \<open>\<^verbatim>\<open>PieceAt\<close> and \<^verbatim>\<open>SetPiece\<close> subscript without any check.\<close>

definition PieceAt :: "grid \<Rightarrow> Coordinate \<Rightarrow> piece option" where
  "PieceAt b rc =
     (case rc of (r, c) \<Rightarrow>
        do { i \<leftarrow> py_index b r; j \<leftarrow> py_index (b ! i) c; Some (b ! i ! j) })"

definition SetPiece :: "grid \<Rightarrow> Coordinate \<Rightarrow> piece \<Rightarrow> grid option" where
  "SetPiece b rc p =
     (case rc of (r, c) \<Rightarrow>
        do { i \<leftarrow> py_index b r; j \<leftarrow> py_index (b ! i) c; Some (b[i := (b ! i)[j := p]]) })"

definition HasPieces :: "grid \<Rightarrow> side \<Rightarrow> bool" where
  "HasPieces b sd =
     (let targets = (if sd = White then {WMan, WKing} else {BMan, BKing})
      in \<exists>row \<in> set b. \<exists>c \<in> set row. c \<in> targets)"

text \<open>\<^verbatim>\<open>_Directions\<close>, branch by branch.\<close>

definition Directions :: "piece \<Rightarrow> (int \<times> int) list" where
  "Directions p =
     (if p = WMan \<or> p = WKing then
        (let ups = [(-1, -1), (-1, 1)]
         in if p = WKing then ups @ [(1, -1), (1, 1)] else ups)
      else
        (let downs = [(1, -1), (1, 1)]
         in if p = BKing then downs @ [(-1, -1), (1, 1)] else downs))"

definition Opponents :: "side \<Rightarrow> piece set" where
  "Opponents sd = (if sd = White then {BMan, BKing} else {WMan, WKing})"

subsection \<open>Move generation\<close>

text \<open>
  The closure state of \<^verbatim>\<open>_MovesFrom\<close> that \<^verbatim>\<open>try_captures\<close> reads and writes: the board
  (mutated and restored around each recursive call), the list \<^verbatim>\<open>captures\<close> and the set
  \<^verbatim>\<open>seen\<close> of keys \<^verbatim>\<open>(start, tuple(path), tuple(captured))\<close>.
\<close>

record gen_state =
  board :: grid
  captures :: "Move list"
  seen :: "(Coordinate \<times> Coordinate list \<times> Coordinate list) set"

definition try_quiet :: "grid \<Rightarrow> int \<Rightarrow> int \<Rightarrow> int \<Rightarrow> int \<Rightarrow> Move list \<Rightarrow> Move list" where
  "try_quiet b fr fc dr dc quiets =
     (let nr = fr + dr; nc = fc + dc
      in if Inside nr nc \<and> cell b nr nc = Empty then
           quiets @ [\<lparr>StartingMoveLocation = (fr, fc), TargetingMoveLocation = (nr, nc),
                      path = [(fr, fc), (nr, nc)], is_capture = False, captured = []\<rparr>]
         else quiets)"

text \<open>The rank of the mover after landing on row \<open>lr\<close> (lines 124--128).\<close>

definition landed :: "side \<Rightarrow> int \<Rightarrow> piece \<Rightarrow> piece" where
  "landed sd lr piece_local =
     (let lp = piece_local;
          lp = (if sd = White \<and> lr = 0 \<and> piece_local = WMan then WKing else lp);
          lp = (if sd = Black \<and> lr = bsize - 1 \<and> piece_local = BMan then BKing else lp)
      in lp)"

text \<open>The squares of the board that are not in the list of captured coordinates: the
  recursion of \<^verbatim>\<open>try_captures\<close> ends because each jump uses one up.\<close>

definition free_cells :: "Coordinate list \<Rightarrow> nat" where
  "free_cells capt = card (({0..<8} \<times> {0..<8}) - set capt)"

lemma free_cells_less:
  assumes "Inside mr mc" and "(mr, mc) \<notin> set capt"
  shows "free_cells (capt @ [(mr, mc)]) < free_cells capt"
proof -
  let ?A = "({0..<8} \<times> {0..<8}) :: Coordinate set"
  have fin: "finite (?A - set capt)" by simp
  have mem: "(mr, mc) \<in> ?A - set capt"
    using assms by (simp add: Inside_def bsize_def)
  have "?A - set (capt @ [(mr, mc)]) = (?A - set capt) - {(mr, mc)}" by auto
  then have "free_cells (capt @ [(mr, mc)]) = card ((?A - set capt) - {(mr, mc)})"
    by (simp add: free_cells_def)
  also have "\<dots> < card (?A - set capt)"
    using fin mem by (rule card_Diff1_less)
  finally show ?thesis by (simp add: free_cells_def)
qed

text \<open>
  \<^verbatim>\<open>try_captures\<close> is the body after the \<^verbatim>\<open>for\<close> loop (recording a maximal chain);
  \<^verbatim>\<open>try_directions\<close> is the \<^verbatim>\<open>for dr, dc in self._Directions(piece_local)\<close> loop over the
  remaining directions, carrying the flag \<^verbatim>\<open>found\<close>. No statement between the mutation
  and the \<^verbatim>\<open>finally\<close> block can raise, so the restore always runs after the recursive call.
\<close>

function try_captures ::
    "side \<Rightarrow> int \<Rightarrow> int \<Rightarrow> piece \<Rightarrow> Coordinate list \<Rightarrow> Coordinate list \<Rightarrow> gen_state \<Rightarrow> gen_state"
  and try_directions ::
    "side \<Rightarrow> int \<Rightarrow> int \<Rightarrow> piece \<Rightarrow> Coordinate list \<Rightarrow> Coordinate list \<Rightarrow> (int \<times> int) list
       \<Rightarrow> bool \<Rightarrow> gen_state \<Rightarrow> bool \<times> gen_state"
where
  "try_captures sd fr fc piece_local pth capt st =
     (case try_directions sd fr fc piece_local pth capt (Directions piece_local) False st of
        (found, st') \<Rightarrow>
          if \<not> found \<and> length capt > 0 then
            (let mv = \<lparr>StartingMoveLocation = hd pth, TargetingMoveLocation = last pth,
                       path = pth, is_capture = True, captured = capt\<rparr>;
                 key = (StartingMoveLocation mv, path mv, captured mv)
             in if key \<notin> seen st' then
                  st'\<lparr>captures := captures st' @ [mv], seen := insert key (seen st')\<rparr>
                else st')
          else st')"
| "try_directions sd fr fc piece_local pth capt [] found st = (found, st)"
| "try_directions sd fr fc piece_local pth capt (d # ds) found st =
     (let mr = fr + fst d; mc = fc + snd d; lr = fr + 2 * fst d; lc = fc + 2 * snd d
      in if Inside lr lc \<and> cell (board st) lr lc = Empty \<and>
            Inside mr mc \<and> cell (board st) mr mc \<in> Opponents sd then
           if (mr, mc) \<in> set capt then
             try_directions sd fr fc piece_local pth capt ds found st
           else
             (let orig = cell (board st) fr fc;
                  b1 = put (board st) fr fc Empty;
                  cap_orig = cell b1 mr mc;
                  b2 = put b1 mr mc Empty;
                  landed_piece = landed sd lr piece_local;
                  dest_orig = cell b2 lr lc;
                  b3 = put b2 lr lc landed_piece;
                  st1 = try_captures sd lr lc landed_piece (pth @ [(lr, lc)]) (capt @ [(mr, mc)])
                          (st\<lparr>board := b3\<rparr>);
                  b4 = put (board st1) fr fc orig;
                  b5 = put b4 mr mc cap_orig;
                  b6 = put b5 lr lc dest_orig
              in try_directions sd fr fc piece_local pth capt ds True (st1\<lparr>board := b6\<rparr>))
         else try_directions sd fr fc piece_local pth capt ds found st)"
  by pat_completeness auto

termination
  by (relation "inv_image (less_than <*lex*> less_than)
        (\<lambda>x. case x of
           Inl (sd, fr, fc, p, pth, capt, st) \<Rightarrow> (free_cells capt, 5 + length (Directions p))
         | Inr (sd, fr, fc, p, pth, capt, ds, found, st) \<Rightarrow> (free_cells capt, length ds))")
     (auto simp: free_cells_less)

text \<open>\<^verbatim>\<open>_MovesFrom\<close>: the quiet moves in each direction of the piece, then the capture chains
  from an empty \<^verbatim>\<open>captures\<close> list and \<^verbatim>\<open>seen\<close> set; the board it leaves is returned too.\<close>

definition MovesFrom :: "grid \<Rightarrow> Coordinate \<Rightarrow> piece \<Rightarrow> side \<Rightarrow> (Move list \<times> Move list) \<times> grid" where
  "MovesFrom b rc pc sd =
     (case rc of (r, c) \<Rightarrow>
        (let quiets = fold (\<lambda>d qs. try_quiet b r c (fst d) (snd d) qs) (Directions pc) [];
             st = try_captures sd r c pc [(r, c)] [] \<lparr>board = b, captures = [], seen = {}\<rparr>
         in ((captures st, quiets), board st)))"

text \<open>The body of the two nested \<^verbatim>\<open>for\<close> loops of \<^verbatim>\<open>AllLegalMoves\<close> at cell \<open>(r, c)\<close>; the
  accumulator holds \<^verbatim>\<open>captures\<close>, \<^verbatim>\<open>quiets\<close> and the board.\<close>

definition scan_cell ::
    "side \<Rightarrow> int \<Rightarrow> int \<Rightarrow> Move list \<times> Move list \<times> grid \<Rightarrow> Move list \<times> Move list \<times> grid" where
  "scan_cell sd r c acc =
     (case acc of (caps, qs, b) \<Rightarrow>
        (let pc = cell b r c
         in if pc = Empty then acc
            else if sd = White \<and> pc \<notin> {WMan, WKing} then acc
            else if sd = Black \<and> pc \<notin> {BMan, BKing} then acc
            else (case MovesFrom b (r, c) pc sd of
                    ((caps', qs'), b') \<Rightarrow> (caps @ caps', qs @ qs', b'))))"

definition scan_board :: "side \<Rightarrow> grid \<Rightarrow> Move list \<times> Move list \<times> grid" where
  "scan_board sd b = fold (\<lambda>r acc. fold (\<lambda>c acc'. scan_cell sd r c acc') [0..7] acc) [0..7] ([], [], b)"

text \<open>\<^verbatim>\<open>AllLegalMoves\<close> returns the list of moves; the second component is the board the
  call leaves behind.\<close>

definition AllLegalMoves :: "grid \<Rightarrow> side \<Rightarrow> Move list \<times> grid" where
  "AllLegalMoves b sd =
     (case scan_board sd b of (caps, qs, b') \<Rightarrow> (if caps \<noteq> [] then caps else qs, b'))"

text \<open>\<^verbatim>\<open>IsTerminal\<close>, with the short-circuit evaluation of \<^verbatim>\<open>or\<close>.\<close>

definition IsTerminal :: "grid \<Rightarrow> bool \<times> grid" where
  "IsTerminal b =
     (if \<not> HasPieces b White then (True, b)
      else if \<not> HasPieces b Black then (True, b)
      else (case AllLegalMoves b White of
              (mw, b1) \<Rightarrow>
                if length mw = 0 then (True, b1)
                else (case AllLegalMoves b1 Black of (mb, b2) \<Rightarrow> (length mb = 0, b2))))"

subsection \<open>Move application\<close>

text \<open>The loop \<^verbatim>\<open>for cr, cc in move.captured: self.board[cr][cc] = '.'\<close>.\<close>

fun clear_cells :: "grid \<Rightarrow> Coordinate list \<Rightarrow> grid option" where
  "clear_cells b [] = Some b"
| "clear_cells b (rc # rcs) = do { b' \<leftarrow> SetPiece b rc Empty; clear_cells b' rcs }"

text \<open>\<^verbatim>\<open>ApplyMove\<close> checks no index: \<open>None\<close> is the \<^verbatim>\<open>IndexError\<close> of an unchecked subscript.\<close>

definition ApplyMove :: "grid \<Rightarrow> Move \<Rightarrow> grid option" where
  "ApplyMove b move =
     (case StartingMoveLocation move of (sr, sc) \<Rightarrow>
      case TargetingMoveLocation move of (tr, tc) \<Rightarrow>
        do { pc \<leftarrow> PieceAt b (sr, sc);
             b1 \<leftarrow> SetPiece b (sr, sc) Empty;
             b2 \<leftarrow> clear_cells b1 (captured move);
             SetPiece b2 (tr, tc)
               (if pc = WMan \<and> tr = 0 then WKing
                else if pc = BMan \<and> tr = bsize - 1 then BKing
                else pc) })"

section \<open>Heuristic (game\_utilities.py)\<close>

definition piece_value :: "int \<Rightarrow> piece \<Rightarrow> int" where
  "piece_value r p =
     (if p = BMan then 3 + r
      else if p = BKing then 5
      else if p = WMan then - (3 + (bsize - 1 - r))
      else if p = WKing then - 5
      else 0)"

definition HeuristicScore :: "grid \<Rightarrow> int" where
  "HeuristicScore b =
     fold (\<lambda>r v. fold (\<lambda>c v'. v' + piece_value r (cell b r c)) [0..7] v) [0..7] 0"

section \<open>Search engine (search\_tool\_box.py)\<close>

subsection \<open>Analytics and the clock\<close>

record MoveAnalytics =
  NodesExpanded :: int
  MaxFringeSize :: int
  AlphaBetaCuts :: int
  OrderingComparisons :: int
  OrderingGains :: int
  ElapsedMs :: int

text \<open>\<^verbatim>\<open>MoveAnalytics()\<close> with the defaults of the dataclass.\<close>

definition MoveAnalytics_init :: MoveAnalytics where
  "MoveAnalytics_init =
     \<lparr>NodesExpanded = 0, MaxFringeSize = 0, AlphaBetaCuts = 0, OrderingComparisons = 0,
      OrderingGains = 0, ElapsedMs = 0\<rparr>"

record SearchToolBox =
  mode :: string
  UseOrdering :: bool
  UseAlphaBeta :: bool
  Analytics :: MoveAnalytics

text \<open>\<^verbatim>\<open>SearchToolBox.__init__\<close>.\<close>

definition SearchToolBox_init :: "string \<Rightarrow> SearchToolBox" where
  "SearchToolBox_init md =
     \<lparr>mode = md,
      UseOrdering = (md = ''alpha-beta-ordering''),
      UseAlphaBeta = (md \<in> {''alpha-beta'', ''alpha-beta-ordering''}),
      Analytics = MoveAnalytics_init\<rparr>"

text \<open>
  What a search call reads and writes besides boards: the tool box \<^verbatim>\<open>self\<close> and the wall
  clock. The clock is a sequence \<open>clk\<close> of readings, the \<open>k\<close>-th being what the \<open>k\<close>-th call
  of \<^verbatim>\<open>time.time()\<close> returns; \<open>ticks\<close> counts the calls made so far. Readings are real
  numbers (seconds), the usual idealisation of Python floats.
\<close>

record world =
  self :: SearchToolBox
  ticks :: nat

definition time_time :: "(nat \<Rightarrow> real) \<Rightarrow> world \<Rightarrow> real \<times> world" where
  "time_time clk w = (clk (ticks w), w\<lparr>ticks := Suc (ticks w)\<rparr>)"

text \<open>An update of \<^verbatim>\<open>self.Analytics\<close> in place.\<close>

definition bump :: "(MoveAnalytics \<Rightarrow> MoveAnalytics) \<Rightarrow> world \<Rightarrow> world" where
  "bump f w = w\<lparr>self := (self w)\<lparr>Analytics := f (Analytics (self w))\<rparr>\<rparr>"

text \<open>Python's \<^verbatim>\<open>int(x)\<close> on a float truncates towards zero.\<close>

definition py_int :: "real \<Rightarrow> int" where
  "py_int x = (if 0 \<le> x then \<lfloor>x\<rfloor> else \<lceil>x\<rceil>)"

text \<open>\<^verbatim>\<open>10**9\<close>, the bound that stands for infinity.\<close>

definition big :: int where
  "big = 10 ^ 9"

subsection \<open>Move ordering\<close>

text \<open>The loop of \<^verbatim>\<open>_OrderMoves\<close> that builds \<^verbatim>\<open>scored\<close>; \<open>None\<close> when \<^verbatim>\<open>ApplyMove\<close> raises.\<close>

fun score_moves :: "grid \<Rightarrow> side \<Rightarrow> Move list \<Rightarrow> (int \<times> Move) list option" where
  "score_moves b sd [] = Some []"
| "score_moves b sd (m # ms) =
     do { clone \<leftarrow> ApplyMove (Clone b) m;
          rest \<leftarrow> score_moves b sd ms;
          Some ((if sd = White then - HeuristicScore clone else HeuristicScore clone, m) # rest) }"

text \<open>\<^verbatim>\<open>scored.sort(key=lambda x: x[0], reverse=True)\<close> is a stable sort by descending key.\<close>

definition OrderMoves :: "grid \<Rightarrow> side \<Rightarrow> Move list \<Rightarrow> world \<Rightarrow> (Move list \<times> world) option" where
  "OrderMoves b sd moves w =
     (if \<not> UseOrdering (self w) then Some (moves, w)
      else do { scored \<leftarrow> score_moves b sd moves;
                Some (map snd (sort_key (\<lambda>x. - fst x) scored),
                      bump (OrderingComparisons_update
                              (\<lambda>n. n + max 0 (int (length scored) - 1))) w) })"

subsection \<open>The recursive value functions\<close>

text \<open>
  \<^verbatim>\<open>max_value\<close> and \<^verbatim>\<open>min_value\<close> up to their \<^verbatim>\<open>for m in ordered\<close> loops, which are
  \<^verbatim>\<open>max_loop\<close> and \<^verbatim>\<open>min_loop\<close> over the moves still to try (the \<^verbatim>\<open>break\<close> is the branch
  that returns). The depth is a natural number: \<^verbatim>\<open>ChooseMove\<close> starts at depth 1 or more
  and every call goes one down until the test \<^verbatim>\<open>d == 0\<close>.
\<close>

function max_value ::
    "(nat \<Rightarrow> real) \<Rightarrow> real \<Rightarrow> grid \<Rightarrow> nat \<Rightarrow> int \<Rightarrow> int \<Rightarrow> world \<Rightarrow> (int \<times> world) option"
  and max_loop ::
    "(nat \<Rightarrow> real) \<Rightarrow> real \<Rightarrow> grid \<Rightarrow> nat \<Rightarrow> Move list \<Rightarrow> int \<Rightarrow> int \<Rightarrow> int \<Rightarrow> world
       \<Rightarrow> (int \<times> world) option"
  and min_value ::
    "(nat \<Rightarrow> real) \<Rightarrow> real \<Rightarrow> grid \<Rightarrow> nat \<Rightarrow> int \<Rightarrow> int \<Rightarrow> world \<Rightarrow> (int \<times> world) option"
  and min_loop ::
    "(nat \<Rightarrow> real) \<Rightarrow> real \<Rightarrow> grid \<Rightarrow> nat \<Rightarrow> Move list \<Rightarrow> int \<Rightarrow> int \<Rightarrow> int \<Rightarrow> world
       \<Rightarrow> (int \<times> world) option"
where
  "max_value clk deadline bd d a be w =
     (case time_time clk w of
        (t, w1) \<Rightarrow>
          if t > deadline then Some (HeuristicScore bd, w1)
          else
            (let w2 = bump (NodesExpanded_update (\<lambda>n. n + 1)) w1
             in if d = 0 then Some (HeuristicScore bd, w2)
                else (case IsTerminal bd of
                        (terminal, bd1) \<Rightarrow>
                          if terminal then Some (HeuristicScore bd1, w2)
                          else (case AllLegalMoves bd1 Black of
                                  (moves, bd2) \<Rightarrow>
                                    if moves = [] then Some (HeuristicScore bd2, w2)
                                    else do { (ordered, w3) \<leftarrow> OrderMoves bd2 Black moves w2;
                                              max_loop clk deadline bd2 (d - 1) ordered (- big) a be w3 }))))"
| "max_loop clk deadline bd d [] best a be w = Some (best, w)"
| "max_loop clk deadline bd d (m # ms) best a be w =
     do { clone \<leftarrow> ApplyMove (Clone bd) m;
          (val, w1) \<leftarrow> min_value clk deadline clone d a be w;
          (let best' = max best val; a' = max a best'
           in if UseAlphaBeta (self w1) \<and> a' \<ge> be then
                Some (best', bump (AlphaBetaCuts_update (\<lambda>n. n + 1)) w1)
              else max_loop clk deadline bd d ms best' a' be w1) }"
| "min_value clk deadline bd d a be w =
     (case time_time clk w of
        (t, w1) \<Rightarrow>
          if t > deadline then Some (HeuristicScore bd, w1)
          else
            (let w2 = bump (NodesExpanded_update (\<lambda>n. n + 1)) w1
             in if d = 0 then Some (HeuristicScore bd, w2)
                else (case IsTerminal bd of
                        (terminal, bd1) \<Rightarrow>
                          if terminal then Some (HeuristicScore bd1, w2)
                          else (case AllLegalMoves bd1 White of
                                  (moves, bd2) \<Rightarrow>
                                    if moves = [] then Some (HeuristicScore bd2, w2)
                                    else do { (ordered, w3) \<leftarrow> OrderMoves bd2 White moves w2;
                                              min_loop clk deadline bd2 (d - 1) ordered big a be w3 }))))"
| "min_loop clk deadline bd d [] best a be w = Some (best, w)"
| "min_loop clk deadline bd d (m # ms) best a be w =
     do { clone \<leftarrow> ApplyMove (Clone bd) m;
          (val, w1) \<leftarrow> max_value clk deadline clone d a be w;
          (let best' = min best val; be' = min be best'
           in if UseAlphaBeta (self w1) \<and> a \<ge> be' then
                Some (best', bump (AlphaBetaCuts_update (\<lambda>n. n + 1)) w1)
              else min_loop clk deadline bd d ms best' a be' w1) }"
  by pat_completeness auto
termination
  by (relation "inv_image (less_than <*lex*> less_than)
        (\<lambda>x. case x of
           Inl (Inl (clk, deadline, bd, d, a, be, w)) \<Rightarrow> (d, 0)
         | Inl (Inr (clk, deadline, bd, d, ms, best, a, be, w)) \<Rightarrow> (d, Suc (length ms))
         | Inr (Inl (clk, deadline, bd, d, a, be, w)) \<Rightarrow> (d, 0)
         | Inr (Inr (clk, deadline, bd, d, ms, best, a, be, w)) \<Rightarrow> (d, Suc (length ms)))")
     auto

subsection \<open>Root search and iterative deepening\<close>

text \<open>
  The loop \<^verbatim>\<open>for idx, m in enumerate(moves)\<close> of \<^verbatim>\<open>_SearchDepth\<close>, from index \<open>idx\<close> on, with
  the locals \<^verbatim>\<open>best_move\<close>, \<^verbatim>\<open>best_score\<close>, \<^verbatim>\<open>alpha\<close>, \<^verbatim>\<open>beta\<close>. The argument \<open>d\<close> is
  \<^verbatim>\<open>depth - 1\<close>.
\<close>

fun root_loop ::
    "(nat \<Rightarrow> real) \<Rightarrow> real \<Rightarrow> grid \<Rightarrow> bool \<Rightarrow> nat \<Rightarrow> nat \<Rightarrow> Move list \<Rightarrow> Move option \<Rightarrow> int
       \<Rightarrow> int \<Rightarrow> int \<Rightarrow> world \<Rightarrow> ((Move option \<times> int) \<times> world) option" where
  "root_loop clk deadline b maximizing d idx [] best_move best_score alpha beta w =
     Some ((best_move, best_score), w)"
| "root_loop clk deadline b maximizing d idx (m # ms) best_move best_score alpha beta w =
     do { clone \<leftarrow> ApplyMove (Clone b) m;
          if maximizing then
            do { (score, w1) \<leftarrow> min_value clk deadline clone d alpha beta w;
                 (let better = score > best_score;
                      w2 = (if better \<and> idx > 0
                            then bump (OrderingGains_update (\<lambda>n. n + 1)) w1 else w1);
                      best_score' = (if better then score else best_score);
                      best_move' = (if better then Some m else best_move);
                      alpha' = max alpha best_score'
                  in case time_time clk w2 of
                       (t, w3) \<Rightarrow>
                         if t > deadline then Some ((best_move', best_score'), w3)
                         else root_loop clk deadline b maximizing d (Suc idx) ms
                                best_move' best_score' alpha' beta w3) }
          else
            do { (score, w1) \<leftarrow> max_value clk deadline clone d alpha beta w;
                 (let better = score < best_score;
                      w2 = (if better \<and> idx > 0
                            then bump (OrderingGains_update (\<lambda>n. n + 1)) w1 else w1);
                      best_score' = (if better then score else best_score);
                      best_move' = (if better then Some m else best_move);
                      beta' = min beta best_score'
                  in case time_time clk w2 of
                       (t, w3) \<Rightarrow>
                         if t > deadline then Some ((best_move', best_score'), w3)
                         else root_loop clk deadline b maximizing d (Suc idx) ms
                                best_move' best_score' alpha beta' w3) } }"

text \<open>
  \<^verbatim>\<open>_SearchDepth\<close> returns the pair (move, score); the model returns with it the board that
  the call leaves to the caller and the world. \<^verbatim>\<open>ChooseMove\<close> calls it with \<open>depth \<ge> 1\<close>.
\<close>

definition SearchDepth ::
    "(nat \<Rightarrow> real) \<Rightarrow> grid \<Rightarrow> side \<Rightarrow> nat \<Rightarrow> real \<Rightarrow> world
       \<Rightarrow> ((Move option \<times> int option) \<times> grid \<times> world) option" where
  "SearchDepth clk b sd depth deadline w =
     (case time_time clk w of
        (start, w0) \<Rightarrow>
          (let maximizing = (sd = Black)
           in case AllLegalMoves b sd of
                (moves, b1) \<Rightarrow>
                  if moves = [] then Some ((None, None), b1, w0)
                  else
                    do { (moves', w1) \<leftarrow> OrderMoves b1 sd moves w0;
                         ((best_move, best_score), w2) \<leftarrow>
                           root_loop clk deadline b1 maximizing (depth - 1) 0 moves' None
                             (if maximizing then - big else big) (- big) big w1;
                         (case time_time clk w2 of
                            (finish, w3) \<Rightarrow>
                              Some ((best_move, Some best_score), b1,
                                    bump (ElapsedMs_update
                                            (\<lambda>n. n + py_int ((finish - start) * 1000))) w3)) }))"

text \<open>The loop \<^verbatim>\<open>for depth in range(1, max(1, PlyLimit) + 1)\<close> of \<^verbatim>\<open>ChooseMove\<close> over the
  depths still to run, with the locals \<^verbatim>\<open>best_move\<close> and \<^verbatim>\<open>best_score\<close>.\<close>

fun deepen ::
    "(nat \<Rightarrow> real) \<Rightarrow> side \<Rightarrow> real \<Rightarrow> nat list \<Rightarrow> grid \<Rightarrow> Move option \<Rightarrow> int option \<Rightarrow> world
       \<Rightarrow> ((Move option \<times> int option) \<times> grid \<times> world) option" where
  "deepen clk sd deadline [] b best_move best_score w = Some ((best_move, best_score), b, w)"
| "deepen clk sd deadline (depth # depths) b best_move best_score w =
     do { ((move, score), b1, w1) \<leftarrow> SearchDepth clk b sd depth deadline w;
          (case time_time clk w1 of
             (t, w2) \<Rightarrow>
               if t > deadline then Some ((best_move, best_score), b1, w2)
               else if move \<noteq> None then deepen clk sd deadline depths b1 move score w2
               else deepen clk sd deadline depths b1 best_move best_score w2) }"

text \<open>
  \<^verbatim>\<open>ChooseMove\<close> returns a move or \<^verbatim>\<open>None\<close>; the model returns with it the caller's board
  as the call leaves it and the world (whose \<open>self\<close> holds the analytics of the call).
\<close>

definition ChooseMove ::
    "(nat \<Rightarrow> real) \<Rightarrow> grid \<Rightarrow> side \<Rightarrow> int \<Rightarrow> int \<Rightarrow> world \<Rightarrow> (Move option \<times> grid \<times> world) option" where
  "ChooseMove clk b sd SecondsBudget PlyLimit w =
     (case time_time clk (w\<lparr>self := (self w)\<lparr>Analytics := MoveAnalytics_init\<rparr>\<rparr>) of
        (t0, w1) \<Rightarrow>
          (let deadline = t0 + real_of_int (max 1 SecondsBudget)
           in do { ((best_move, best_score), b1, w2) \<leftarrow>
                     deepen clk sd deadline [1..<nat (max 1 PlyLimit) + 1] b None None w1;
                   if best_move = None then
                     (case AllLegalMoves b1 sd of
                        (moves, b2) \<Rightarrow> Some (if moves \<noteq> [] then Some (hd moves) else None, b2, w2))
                   else Some (best_move, b1, w2) }))"

section \<open>Properties of the board engine\<close>

subsection \<open>Writing and restoring cells\<close>

lemma length_put [simp]: "length (put b r c p) = length b"
  by (simp add: put_def)

lemma nth_put: "i < length b \<Longrightarrow> put b r c p ! i = (if i = nat r then (b ! i)[nat c := p] else b ! i)"
  by (simp add: put_def)

lemma put_same_cell: "put b r c (cell b r c) = b"
  by (simp add: put_def cell_def)

lemma restore_three:
  assumes "nat fr \<noteq> nat mr" "nat fr \<noteq> nat lr" "nat mr \<noteq> nat lr"
  shows "put (put (put (put (put (put b fr fc Empty) mr mc Empty) lr lc x) fr fc (cell b fr fc))
               mr mc (cell (put b fr fc Empty) mr mc))
               lr lc (cell (put (put b fr fc Empty) mr mc Empty) lr lc) = b"
proof (rule nth_equalityI)
  show "length (put (put (put (put (put (put b fr fc Empty) mr mc Empty) lr lc x) fr fc (cell b fr fc))
               mr mc (cell (put b fr fc Empty) mr mc))
               lr lc (cell (put (put b fr fc Empty) mr mc Empty) lr lc)) = length b"
    by simp
next
  fix i
  assume "i < length (put (put (put (put (put (put b fr fc Empty) mr mc Empty) lr lc x) fr fc (cell b fr fc))
               mr mc (cell (put b fr fc Empty) mr mc))
               lr lc (cell (put (put b fr fc Empty) mr mc Empty) lr lc))"
  then have i: "i < length b" by simp
  show "put (put (put (put (put (put b fr fc Empty) mr mc Empty) lr lc x) fr fc (cell b fr fc))
               mr mc (cell (put b fr fc Empty) mr mc))
               lr lc (cell (put (put b fr fc Empty) mr mc Empty) lr lc) ! i = b ! i"
    using i assms by (simp add: nth_put cell_def)
qed

subsection \<open>The capture search restores the board\<close>

definition diagonal :: "int \<times> int \<Rightarrow> bool" where
  "diagonal d \<longleftrightarrow> \<bar>fst d\<bar> = 1 \<and> \<bar>snd d\<bar> = 1"

lemma Directions_diagonal: "d \<in> set (Directions p) \<Longrightarrow> diagonal d"
  by (auto simp: Directions_def diagonal_def Let_def split: if_splits)

declare try_captures.simps [simp del]

definition can_jump :: "side \<Rightarrow> grid \<Rightarrow> int \<Rightarrow> int \<Rightarrow> int \<times> int \<Rightarrow> bool" where
  "can_jump sd b fr fc d \<longleftrightarrow>
     Inside (fr + 2 * fst d) (fc + 2 * snd d) \<and> cell b (fr + 2 * fst d) (fc + 2 * snd d) = Empty \<and>
     Inside (fr + fst d) (fc + snd d) \<and> cell b (fr + fst d) (fc + snd d) \<in> Opponents sd"

definition jump_board :: "side \<Rightarrow> grid \<Rightarrow> int \<Rightarrow> int \<Rightarrow> piece \<Rightarrow> int \<times> int \<Rightarrow> grid" where
  "jump_board sd b fr fc p d =
     put (put (put b fr fc Empty) (fr + fst d) (fc + snd d) Empty)
       (fr + 2 * fst d) (fc + 2 * snd d) (landed sd (fr + 2 * fst d) p)"

definition unjump :: "grid \<Rightarrow> grid \<Rightarrow> int \<Rightarrow> int \<Rightarrow> int \<times> int \<Rightarrow> grid" where
  "unjump b b' fr fc d =
     put (put (put b' fr fc (cell b fr fc))
            (fr + fst d) (fc + snd d) (cell (put b fr fc Empty) (fr + fst d) (fc + snd d)))
       (fr + 2 * fst d) (fc + 2 * snd d)
       (cell (put (put b fr fc Empty) (fr + fst d) (fc + snd d) Empty)
          (fr + 2 * fst d) (fc + 2 * snd d))"

lemma try_directions_skip:
  assumes "\<not> can_jump sd (board st) fr fc d"
  shows "try_directions sd fr fc p pth capt (d # ds) found st =
         try_directions sd fr fc p pth capt ds found st"
  using assms unfolding can_jump_def
  by (simp only: try_directions.simps Let_def if_False simp_thms)

lemma try_directions_again:
  assumes "can_jump sd (board st) fr fc d" and "(fr + fst d, fc + snd d) \<in> set capt"
  shows "try_directions sd fr fc p pth capt (d # ds) found st =
         try_directions sd fr fc p pth capt ds found st"
  using assms unfolding can_jump_def
  by (simp only: try_directions.simps Let_def if_True simp_thms)

lemma try_directions_jump:
  assumes "can_jump sd (board st) fr fc d" and "(fr + fst d, fc + snd d) \<notin> set capt"
  shows "try_directions sd fr fc p pth capt (d # ds) found st =
         (let st1 = try_captures sd (fr + 2 * fst d) (fc + 2 * snd d) (landed sd (fr + 2 * fst d) p)
                      (pth @ [(fr + 2 * fst d, fc + 2 * snd d)]) (capt @ [(fr + fst d, fc + snd d)])
                      (st\<lparr>board := jump_board sd (board st) fr fc p d\<rparr>)
          in try_directions sd fr fc p pth capt ds True
               (st1\<lparr>board := unjump (board st) (board st1) fr fc d\<rparr>))"
  using assms unfolding can_jump_def jump_board_def unjump_def
  by (simp only: try_directions.simps Let_def if_True if_False simp_thms)

lemma unjump_jump_board:
  assumes "0 \<le> fr" and "can_jump sd b fr fc d" and "diagonal d"
  shows "unjump b (jump_board sd b fr fc p d) fr fc d = b"
proof -
  have "nat fr \<noteq> nat (fr + fst d)" "nat fr \<noteq> nat (fr + 2 * fst d)"
       "nat (fr + fst d) \<noteq> nat (fr + 2 * fst d)"
    using assms by (auto simp: can_jump_def Inside_def diagonal_def)
  then show ?thesis
    unfolding unjump_def jump_board_def by (rule restore_three)
qed

lemma try_captures_board:
  "0 \<le> fr \<Longrightarrow> board (try_captures sd fr fc p pth capt st) = board st"
  "0 \<le> fr \<Longrightarrow> \<forall>d \<in> set ds. diagonal d \<Longrightarrow>
     board (snd (try_directions sd fr fc p pth capt ds found st)) = board st"
proof (induction sd fr fc p pth capt st and sd fr fc p pth capt ds found st
       rule: try_captures_try_directions.induct)
  case (1 sd fr fc piece_local pth capt st)
  obtain found st' where td:
    "try_directions sd fr fc piece_local pth capt (Directions piece_local) False st = (found, st')"
    by (cases "try_directions sd fr fc piece_local pth capt (Directions piece_local) False st")
  have "board st' = board st"
    using "1.IH" "1.prems" td by (simp add: Directions_diagonal)
  then show ?case
    by (simp add: try_captures.simps td Let_def)
next
  case (2 sd fr fc piece_local pth capt found st)
  then show ?case by simp
next
  case (3 sd fr fc piece_local pth capt d ds found st)
  let ?mr = "fr + fst d" and ?mc = "fc + snd d" and ?lr = "fr + 2 * fst d" and ?lc = "fc + 2 * snd d"
  have dg: "diagonal d" and rest: "\<forall>d \<in> set ds. diagonal d"
    using "3.prems" by simp_all
  show ?case
  proof (cases "can_jump sd (board st) fr fc d")
    case False
    then have "\<not> (Inside ?lr ?lc \<and> cell (board st) ?lr ?lc = Empty \<and>
                Inside ?mr ?mc \<and> cell (board st) ?mr ?mc \<in> Opponents sd)"
      by (simp add: can_jump_def)
    from "3.IH"(4)[OF refl refl refl refl this "3.prems"(1) rest]
    show ?thesis by (simp only: try_directions_skip[OF False])
  next
    case cj: True
    then have guard: "Inside ?lr ?lc \<and> cell (board st) ?lr ?lc = Empty \<and>
                Inside ?mr ?mc \<and> cell (board st) ?mr ?mc \<in> Opponents sd"
      by (simp add: can_jump_def)
    show ?thesis
    proof (cases "(?mr, ?mc) \<in> set capt")
      case True
      from "3.IH"(1)[OF refl refl refl refl guard True "3.prems"(1) rest]
      show ?thesis by (simp only: try_directions_again[OF cj True])
    next
      case False
      let ?b = "board st"
      let ?lp = "landed sd ?lr piece_local"
      let ?b3 = "jump_board sd ?b fr fc piece_local d"
      let ?st1 = "try_captures sd ?lr ?lc ?lp (pth @ [(?lr, ?lc)]) (capt @ [(?mr, ?mc)])
                    (st\<lparr>board := ?b3\<rparr>)"
      let ?b6 = "unjump ?b (board ?st1) fr fc d"
      have lr0: "0 \<le> ?lr" using guard by (simp add: Inside_def)
      have "board ?st1 = ?b3"
        using "3.IH"(2)[OF refl refl refl refl guard False refl refl refl refl refl refl refl lr0]
        by (simp add: jump_board_def)
      then have b6: "?b6 = ?b"
        using unjump_jump_board[OF "3.prems"(1) cj dg] by simp
      have "board (snd (try_directions sd fr fc piece_local pth capt ds True
                          (?st1\<lparr>board := ?b6\<rparr>))) = ?b6"
        using "3.IH"(3)[OF refl refl refl refl guard False refl refl refl refl refl refl refl
                          refl refl refl refl "3.prems"(1) rest]
        by (simp add: jump_board_def unjump_def)
      then show ?thesis
        using b6 by (simp only: try_directions_jump[OF cj False] Let_def)
    qed
  qed
qed

subsection \<open>The scan of the board\<close>

definition own :: "side \<Rightarrow> piece \<Rightarrow> bool" where
  "own sd pc \<longleftrightarrow> (if sd = White then pc \<in> {WMan, WKing} else pc \<in> {BMan, BKing})"

definition start_state :: "grid \<Rightarrow> gen_state" where
  "start_state b = \<lparr>board = b, captures = [], seen = {}\<rparr>"

definition cell_caps :: "side \<Rightarrow> grid \<Rightarrow> Coordinate \<Rightarrow> Move list" where
  "cell_caps sd b rc =
     (if own sd (cell b (fst rc) (snd rc)) then
        captures (try_captures sd (fst rc) (snd rc) (cell b (fst rc) (snd rc)) [rc] [] (start_state b))
      else [])"

definition cell_quiets :: "side \<Rightarrow> grid \<Rightarrow> Coordinate \<Rightarrow> Move list" where
  "cell_quiets sd b rc =
     (if own sd (cell b (fst rc) (snd rc)) then
        fold (\<lambda>d qs. try_quiet b (fst rc) (snd rc) (fst d) (snd d) qs)
          (Directions (cell b (fst rc) (snd rc))) []
      else [])"

definition all_cells :: "Coordinate list" where
  "all_cells = List.product [0..7] [0..7]"

lemma MovesFrom_eq:
  assumes "0 \<le> r"
  shows "MovesFrom b (r, c) pc sd =
         ((captures (try_captures sd r c pc [(r, c)] [] (start_state b)),
           fold (\<lambda>d qs. try_quiet b r c (fst d) (snd d) qs) (Directions pc) []), b)"
  using try_captures_board(1)[OF assms, of sd c pc "[(r, c)]" "[]" "start_state b"]
  by (simp add: MovesFrom_def start_state_def Let_def)

lemma scan_cell_eq:
  assumes "0 \<le> r"
  shows "scan_cell sd r c (caps, qs, b) =
         (caps @ cell_caps sd b (r, c), qs @ cell_quiets sd b (r, c), b)"
proof (cases "own sd (cell b r c)")
  case True
  then show ?thesis
    by (cases sd) (auto simp: scan_cell_def own_def cell_caps_def cell_quiets_def Let_def
        MovesFrom_eq[OF assms])
next
  case False
  then show ?thesis
    by (cases sd; cases "cell b r c")
       (auto simp: scan_cell_def own_def cell_caps_def cell_quiets_def Let_def)
qed

lemma scan_row_eq:
  assumes "0 \<le> r"
  shows "fold (\<lambda>c acc. scan_cell sd r c acc) cs (caps, qs, b) =
         (caps @ concat (map (\<lambda>c. cell_caps sd b (r, c)) cs),
          qs @ concat (map (\<lambda>c. cell_quiets sd b (r, c)) cs), b)"
  by (induction cs arbitrary: caps qs) (simp_all add: scan_cell_eq[OF assms])

lemma scan_rows_eq:
  assumes "\<forall>r \<in> set rs. 0 \<le> r"
  shows "fold (\<lambda>r acc. fold (\<lambda>c acc'. scan_cell sd r c acc') cs acc) rs (caps, qs, b) =
         (caps @ concat (map (cell_caps sd b) (List.product rs cs)),
          qs @ concat (map (cell_quiets sd b) (List.product rs cs)), b)"
  using assms
  by (induction rs arbitrary: caps qs) (simp_all add: scan_row_eq comp_def)

lemma scan_board_eq:
  "scan_board sd b =
     (concat (map (cell_caps sd b) all_cells), concat (map (cell_quiets sd b) all_cells), b)"
  unfolding scan_board_def all_cells_def
  by (subst scan_rows_eq) simp_all

lemma AllLegalMoves_eq:
  "AllLegalMoves b sd =
     (if concat (map (cell_caps sd b) all_cells) \<noteq> []
      then concat (map (cell_caps sd b) all_cells)
      else concat (map (cell_quiets sd b) all_cells), b)"
  by (simp add: AllLegalMoves_def scan_board_eq)

lemma AllLegalMoves_board: "snd (AllLegalMoves b sd) = b"
  by (simp add: AllLegalMoves_eq)

lemma set_all_cells: "set all_cells = {(r, c). Inside r c}"
  by (auto simp: all_cells_def Inside_def bsize_def)

subsection \<open>Capture chains\<close>

record chain_pos =
  at_row :: int
  at_col :: int
  rank :: piece
  trail :: "Coordinate list"
  taken :: "Coordinate list"
  position :: grid

definition jumpable :: "side \<Rightarrow> chain_pos \<Rightarrow> int \<times> int \<Rightarrow> bool" where
  "jumpable sd c d \<longleftrightarrow>
     can_jump sd (position c) (at_row c) (at_col c) d \<and>
     (at_row c + fst d, at_col c + snd d) \<notin> set (taken c)"

definition next_pos :: "side \<Rightarrow> chain_pos \<Rightarrow> int \<times> int \<Rightarrow> chain_pos" where
  "next_pos sd c d =
     \<lparr>at_row = at_row c + 2 * fst d, at_col = at_col c + 2 * snd d,
      rank = landed sd (at_row c + 2 * fst d) (rank c),
      trail = trail c @ [(at_row c + 2 * fst d, at_col c + 2 * snd d)],
      taken = taken c @ [(at_row c + fst d, at_col c + snd d)],
      position = jump_board sd (position c) (at_row c) (at_col c) (rank c) d\<rparr>"

definition jump_step :: "side \<Rightarrow> chain_pos \<Rightarrow> chain_pos \<Rightarrow> bool" where
  "jump_step sd c c' \<longleftrightarrow> (\<exists>d \<in> set (Directions (rank c)). jumpable sd c d \<and> c' = next_pos sd c d)"

definition stuck :: "side \<Rightarrow> chain_pos \<Rightarrow> bool" where
  "stuck sd c \<longleftrightarrow> (\<forall>d \<in> set (Directions (rank c)). \<not> jumpable sd c d)"

definition chain_move :: "chain_pos \<Rightarrow> Move" where
  "chain_move c =
     \<lparr>StartingMoveLocation = hd (trail c), TargetingMoveLocation = last (trail c),
      path = trail c, is_capture = True, captured = taken c\<rparr>"

definition finals :: "side \<Rightarrow> chain_pos \<Rightarrow> Move set" where
  "finals sd c = {chain_move c' | c'. (jump_step sd)\<^sup>*\<^sup>* c c' \<and> stuck sd c' \<and> taken c' \<noteq> []}"

definition move_key :: "Move \<Rightarrow> Coordinate \<times> Coordinate list \<times> Coordinate list" where
  "move_key m = (StartingMoveLocation m, path m, captured m)"

definition good :: "gen_state \<Rightarrow> bool" where
  "good st \<longleftrightarrow> distinct (map move_key (captures st)) \<and> seen st = set (map move_key (captures st))"

definition pos_of :: "int \<Rightarrow> int \<Rightarrow> piece \<Rightarrow> Coordinate list \<Rightarrow> Coordinate list \<Rightarrow> grid \<Rightarrow> chain_pos" where
  "pos_of fr fc p pth capt b =
     \<lparr>at_row = fr, at_col = fc, rank = p, trail = pth, taken = capt, position = b\<rparr>"

lemma finals_next_subset:
  assumes "d \<in> set (Directions (rank c))" and "jumpable sd c d"
  shows "finals sd (next_pos sd c d) \<subseteq> finals sd c"
proof -
  have "jump_step sd c (next_pos sd c d)"
    using assms by (auto simp: jump_step_def)
  then show ?thesis
    by (auto simp: finals_def intro: converse_rtranclp_into_rtranclp)
qed

lemma finals_stuck:
  assumes "stuck sd c" and "taken c \<noteq> []"
  shows "chain_move c \<in> finals sd c"
  using assms by (auto simp: finals_def)

lemma good_board_update [simp]: "good (st\<lparr>board := b\<rparr>) = good st"
  by (simp add: good_def)

declare try_directions.simps(2) [simp del]

lemma try_directions_jump_restored:
  assumes "0 \<le> fr" and "diagonal d"
    and "can_jump sd (board st) fr fc d" and "(fr + fst d, fc + snd d) \<notin> set capt"
  shows "try_directions sd fr fc p pth capt (d # ds) found st =
         try_directions sd fr fc p pth capt ds True
           ((try_captures sd (fr + 2 * fst d) (fc + 2 * snd d) (landed sd (fr + 2 * fst d) p)
               (pth @ [(fr + 2 * fst d, fc + 2 * snd d)]) (capt @ [(fr + fst d, fc + snd d)])
               (st\<lparr>board := jump_board sd (board st) fr fc p d\<rparr>))\<lparr>board := board st\<rparr>)"
proof -
  have lr0: "0 \<le> fr + 2 * fst d"
    using assms(3) by (simp add: can_jump_def Inside_def)
  show ?thesis
    by (simp add: try_directions_jump[OF assms(3,4)] Let_def try_captures_board(1)[OF lr0]
        unjump_jump_board[OF assms(1,3,2)])
qed

definition dirs_finals :: "side \<Rightarrow> chain_pos \<Rightarrow> (int \<times> int) list \<Rightarrow> Move set" where
  "dirs_finals sd c ds = (\<Union>d \<in> {d \<in> set ds. jumpable sd c d}. finals sd (next_pos sd c d))"

lemma dirs_finals_Cons_no: "\<not> jumpable sd c d \<Longrightarrow> dirs_finals sd c (d # ds) = dirs_finals sd c ds"
  by (auto simp: dirs_finals_def)

lemma dirs_finals_Cons_yes:
  "jumpable sd c d \<Longrightarrow> dirs_finals sd c (d # ds) = finals sd (next_pos sd c d) \<union> dirs_finals sd c ds"
  by (auto simp: dirs_finals_def)

lemma dirs_finals_subset:
  "set ds \<subseteq> set (Directions (rank c)) \<Longrightarrow> dirs_finals sd c ds \<subseteq> finals sd c"
  using finals_next_subset by (fastforce simp: dirs_finals_def)

lemma try_captures_sound:
  "0 \<le> fr \<Longrightarrow> good st \<Longrightarrow>
     good (try_captures sd fr fc p pth capt st) \<and>
     (\<exists>ys. captures (try_captures sd fr fc p pth capt st) = captures st @ ys \<and>
           set ys \<subseteq> finals sd (pos_of fr fc p pth capt (board st))) \<and>
     (capt \<noteq> [] \<longrightarrow> captures (try_captures sd fr fc p pth capt st) \<noteq> [])"
  "0 \<le> fr \<Longrightarrow> good st \<Longrightarrow> set ds \<subseteq> set (Directions p) \<Longrightarrow> (found \<longrightarrow> captures st \<noteq> []) \<Longrightarrow>
     good (snd (try_directions sd fr fc p pth capt ds found st)) \<and>
     (\<exists>ys. captures (snd (try_directions sd fr fc p pth capt ds found st)) = captures st @ ys \<and>
           set ys \<subseteq> dirs_finals sd (pos_of fr fc p pth capt (board st)) ds) \<and>
     (fst (try_directions sd fr fc p pth capt ds found st) \<longleftrightarrow>
        found \<or> (\<exists>d \<in> set ds. jumpable sd (pos_of fr fc p pth capt (board st)) d)) \<and>
     (fst (try_directions sd fr fc p pth capt ds found st) \<longrightarrow>
        captures (snd (try_directions sd fr fc p pth capt ds found st)) \<noteq> [])"
proof (induction sd fr fc p pth capt st and sd fr fc p pth capt ds found st
       rule: try_captures_try_directions.induct)
  case (1 sd fr fc piece_local pth capt st)
  let ?c = "pos_of fr fc piece_local pth capt (board st)"
  obtain found st' where td:
    "try_directions sd fr fc piece_local pth capt (Directions piece_local) False st = (found, st')"
    by (cases "try_directions sd fr fc piece_local pth capt (Directions piece_local) False st")
  have bd: "board st' = board st"
    using try_captures_board(2)[OF "1.prems"(1), of "Directions piece_local" sd fc piece_local
        pth capt False st] td
    by (simp add: Directions_diagonal)
  from "1.IH"[OF "1.prems"] td
  obtain ys where g: "good st'" and ys: "captures st' = captures st @ ys"
    and sub: "set ys \<subseteq> dirs_finals sd ?c (Directions piece_local)"
    and fnd: "found \<longleftrightarrow> (\<exists>d \<in> set (Directions piece_local). jumpable sd ?c d)"
    and ne: "found \<longrightarrow> captures st' \<noteq> []"
    by auto
  have sub': "set ys \<subseteq> finals sd ?c"
    using sub dirs_finals_subset[of "Directions piece_local" ?c sd] by (auto simp: pos_of_def)
  show ?case
  proof (cases "\<not> found \<and> capt \<noteq> []")
    case False
    then have eq: "try_captures sd fr fc piece_local pth capt st = st'"
      by (auto simp: try_captures.simps td)
    show ?thesis
      unfolding eq using g ys sub' ne False by auto
  next
    case True
    let ?mv = "\<lparr>StartingMoveLocation = hd pth, TargetingMoveLocation = last pth,
                path = pth, is_capture = True, captured = capt\<rparr>"
    have mv: "?mv = chain_move ?c" by (simp add: chain_move_def pos_of_def)
    have "stuck sd ?c" using True fnd by (simp add: stuck_def pos_of_def)
    then have fin: "?mv \<in> finals sd ?c"
      using finals_stuck[of sd ?c] True mv by (simp add: pos_of_def)
    show ?thesis
    proof (cases "(hd pth, pth, capt) \<in> seen st'")
      case in_seen: True
      then have eq: "try_captures sd fr fc piece_local pth capt st = st'"
        using True by (simp add: try_captures.simps td Let_def)
      have "captures st' \<noteq> []" using in_seen g by (auto simp: good_def)
      then show ?thesis
        unfolding eq using g ys sub' by auto
    next
      case new: False
      then have eq: "try_captures sd fr fc piece_local pth capt st =
          st'\<lparr>captures := captures st' @ [?mv], seen := insert (hd pth, pth, capt) (seen st')\<rparr>"
        using True by (simp add: try_captures.simps td Let_def)
      have gn: "good (st'\<lparr>captures := captures st' @ [?mv],
                      seen := insert (hd pth, pth, capt) (seen st')\<rparr>)"
        using g new by (auto simp: good_def move_key_def)
      show ?thesis
        unfolding eq
      proof (intro conjI exI[of _ "ys @ [?mv]"] impI)
        show "good (st'\<lparr>captures := captures st' @ [?mv],
                      seen := insert (hd pth, pth, capt) (seen st')\<rparr>)"
          by (rule gn)
        show "captures (st'\<lparr>captures := captures st' @ [?mv],
                      seen := insert (hd pth, pth, capt) (seen st')\<rparr>) = captures st @ ys @ [?mv]"
          using ys by simp
        show "set (ys @ [?mv]) \<subseteq> finals sd ?c"
          using sub' fin by simp
        show "captures (st'\<lparr>captures := captures st' @ [?mv],
                      seen := insert (hd pth, pth, capt) (seen st')\<rparr>) \<noteq> []"
          by simp
      qed
    qed
  qed
next
  case (2 sd fr fc piece_local pth capt found st)
  then show ?case by (simp add: dirs_finals_def)
next
  case (3 sd fr fc piece_local pth capt d ds found st)
  let ?c = "pos_of fr fc piece_local pth capt (board st)"
  let ?mr = "fr + fst d" and ?mc = "fc + snd d" and ?lr = "fr + 2 * fst d" and ?lc = "fc + 2 * snd d"
  have din: "d \<in> set (Directions piece_local)"
    and rest: "set ds \<subseteq> set (Directions piece_local)"
    using "3.prems" by simp_all
  have dg: "diagonal d" using din by (rule Directions_diagonal)
  have jdef: "jumpable sd ?c d \<longleftrightarrow> can_jump sd (board st) fr fc d \<and> (?mr, ?mc) \<notin> set capt"
    by (simp add: jumpable_def pos_of_def)
  show ?case
  proof (cases "can_jump sd (board st) fr fc d")
    case False
    then have ng: "\<not> (Inside ?lr ?lc \<and> cell (board st) ?lr ?lc = Empty \<and>
                Inside ?mr ?mc \<and> cell (board st) ?mr ?mc \<in> Opponents sd)"
      by (simp add: can_jump_def)
    have nj: "\<not> jumpable sd ?c d" using False jdef by simp
    from "3.IH"(4)[OF refl refl refl refl ng "3.prems"(1,2) rest "3.prems"(4)]
    show ?thesis
      by (simp only: try_directions_skip[OF False] dirs_finals_Cons_no[OF nj])
         (use nj in auto)
  next
    case cj: True
    then have guard: "Inside ?lr ?lc \<and> cell (board st) ?lr ?lc = Empty \<and>
                Inside ?mr ?mc \<and> cell (board st) ?mr ?mc \<in> Opponents sd"
      by (simp add: can_jump_def)
    show ?thesis
    proof (cases "(?mr, ?mc) \<in> set capt")
      case True
      have nj: "\<not> jumpable sd ?c d" using True jdef by simp
      from "3.IH"(1)[OF refl refl refl refl guard True "3.prems"(1,2) rest "3.prems"(4)]
      show ?thesis
        by (simp only: try_directions_again[OF cj True] dirs_finals_Cons_no[OF nj])
           (use nj in auto)
    next
      case False
      have j: "jumpable sd ?c d" using cj False jdef by simp
      let ?lp = "landed sd ?lr piece_local"
      let ?b3 = "jump_board sd (board st) fr fc piece_local d"
      let ?st1 = "try_captures sd ?lr ?lc ?lp (pth @ [(?lr, ?lc)]) (capt @ [(?mr, ?mc)])
                    (st\<lparr>board := ?b3\<rparr>)"
      let ?st2 = "?st1\<lparr>board := board st\<rparr>"
      have lr0: "0 \<le> ?lr" using guard by (simp add: Inside_def)
      have np: "pos_of ?lr ?lc ?lp (pth @ [(?lr, ?lc)]) (capt @ [(?mr, ?mc)]) ?b3 = next_pos sd ?c d"
        by (simp add: pos_of_def next_pos_def)
      have g0: "good (st\<lparr>board := ?b3\<rparr>)" using "3.prems"(2) by simp
      from "3.IH"(2)[OF refl refl refl refl guard False refl refl refl refl refl refl refl lr0]
      have ih1: "good ?st1 \<and>
         (\<exists>ys. captures ?st1 = captures st @ ys \<and> set ys \<subseteq> finals sd (next_pos sd ?c d)) \<and>
         captures ?st1 \<noteq> []"
        using g0 np by (simp add: jump_board_def)
      then obtain ys1 where g1: "good ?st1" and ys1: "captures ?st1 = captures st @ ys1"
        and sub1: "set ys1 \<subseteq> finals sd (next_pos sd ?c d)" and ne1: "captures ?st1 \<noteq> []"
        by auto
      have b1: "board ?st1 = ?b3"
        using try_captures_board(1)[OF lr0, of sd ?lc ?lp "pth @ [(?lr, ?lc)]"
            "capt @ [(?mr, ?mc)]" "st\<lparr>board := ?b3\<rparr>"] by simp
      have restore: "unjump (board st) (board ?st1) fr fc d = board st"
        using unjump_jump_board[OF "3.prems"(1) cj dg] b1 by simp
      have g2: "good ?st2" using g1 by simp
      have ne2: "True \<longrightarrow> captures ?st2 \<noteq> []" using ne1 by simp
      from "3.IH"(3)[OF refl refl refl refl guard False refl refl refl refl refl refl refl
                          refl refl refl refl "3.prems"(1) _ rest]
      have ih2raw: "good ?st2 \<Longrightarrow> (True \<longrightarrow> captures ?st2 \<noteq> []) \<Longrightarrow>
         good (snd (try_directions sd fr fc piece_local pth capt ds True ?st2)) \<and>
         (\<exists>ys. captures (snd (try_directions sd fr fc piece_local pth capt ds True ?st2)) =
               captures ?st2 @ ys \<and> set ys \<subseteq> dirs_finals sd ?c ds) \<and>
         (fst (try_directions sd fr fc piece_local pth capt ds True ?st2) \<longleftrightarrow>
            True \<or> (\<exists>d \<in> set ds. jumpable sd ?c d)) \<and>
         (fst (try_directions sd fr fc piece_local pth capt ds True ?st2) \<longrightarrow>
            captures (snd (try_directions sd fr fc piece_local pth capt ds True ?st2)) \<noteq> [])"
        using restore by (simp add: jump_board_def unjump_def)
      from ih2raw[OF g2 ne2]
      obtain ys2 where g3: "good (snd (try_directions sd fr fc piece_local pth capt ds True ?st2))"
        and ys2: "captures (snd (try_directions sd fr fc piece_local pth capt ds True ?st2)) =
               captures ?st2 @ ys2"
        and sub2: "set ys2 \<subseteq> dirs_finals sd ?c ds"
        and f3: "fst (try_directions sd fr fc piece_local pth capt ds True ?st2)"
        and ne3: "captures (snd (try_directions sd fr fc piece_local pth capt ds True ?st2)) \<noteq> []"
        by auto
      have eq: "try_directions sd fr fc piece_local pth capt (d # ds) found st =
                try_directions sd fr fc piece_local pth capt ds True ?st2"
        by (rule try_directions_jump_restored[OF "3.prems"(1) dg cj False])
      show ?thesis
        unfolding eq
      proof (intro conjI exI[of _ "ys1 @ ys2"])
        show "good (snd (try_directions sd fr fc piece_local pth capt ds True ?st2))"
          by (rule g3)
        show "captures (snd (try_directions sd fr fc piece_local pth capt ds True ?st2)) =
              captures st @ ys1 @ ys2"
          using ys1 ys2 by simp
        show "set (ys1 @ ys2) \<subseteq> dirs_finals sd ?c (d # ds)"
          using sub1 sub2 by (auto simp: dirs_finals_Cons_yes[OF j])
        show "fst (try_directions sd fr fc piece_local pth capt ds True ?st2) \<longleftrightarrow>
              found \<or> (\<exists>d \<in> set (d # ds). jumpable sd ?c d)"
          using f3 j by simp
        show "fst (try_directions sd fr fc piece_local pth capt ds True ?st2) \<longrightarrow>
              captures (snd (try_directions sd fr fc piece_local pth capt ds True ?st2)) \<noteq> []"
          using ne3 by simp
      qed
    qed
  qed
qed

subsection \<open>Invariants of a chain\<close>

definition chain_inv :: "Coordinate \<Rightarrow> chain_pos \<Rightarrow> bool" where
  "chain_inv s c \<longleftrightarrow>
     trail c \<noteq> [] \<and> hd (trail c) = s \<and> last (trail c) = (at_row c, at_col c) \<and>
     Inside (at_row c) (at_col c) \<and>
     (\<forall>x \<in> set (taken c). Inside (fst x) (snd x)) \<and>
     (\<forall>x \<in> set (trail c). Inside (fst x) (snd x)) \<and>
     distinct (taken c) \<and> length (trail c) = Suc (length (taken c)) \<and>
     (at_row c + at_col c) mod 2 = (fst s + snd s) mod 2"

lemma chain_inv_start: "Inside r c \<Longrightarrow> chain_inv (r, c) (pos_of r c pc [(r, c)] [] b)"
  by (simp add: chain_inv_def pos_of_def)

lemma chain_inv_step:
  assumes "chain_inv s c" and "jump_step sd c c'"
  shows "chain_inv s c'"
proof -
  from assms(2) obtain d where d: "d \<in> set (Directions (rank c))" "jumpable sd c d"
    and c': "c' = next_pos sd c d"
    by (auto simp: jump_step_def)
  have dg: "diagonal d" using d(1) by (rule Directions_diagonal)
  have par: "(at_row c + 2 * fst d + (at_col c + 2 * snd d)) mod 2 = (at_row c + at_col c) mod 2"
    by presburger
  show ?thesis
    using assms(1) d(2) par unfolding c'
    by (auto simp: chain_inv_def next_pos_def jumpable_def can_jump_def)
qed

lemma chain_inv_steps:
  assumes "(jump_step sd)\<^sup>*\<^sup>* c c'" and "chain_inv s c"
  shows "chain_inv s c'"
  using assms by (induction rule: rtranclp_induct) (auto intro: chain_inv_step)

subsection \<open>Mandatory capture\<close>

text \<open>The board with no piece on it.\<close>

definition empty_board :: grid where
  "empty_board = replicate 8 (replicate 8 Empty)"

lemma good_start: "good (start_state b)"
  by (simp add: good_def start_state_def)

lemma cell_caps_finals:
  assumes "0 \<le> fst rc" and "m \<in> set (cell_caps sd b rc)"
  shows "m \<in> finals sd (pos_of (fst rc) (snd rc) (cell b (fst rc) (snd rc)) [rc] [] b)"
proof -
  from assms(2) have own: "own sd (cell b (fst rc) (snd rc))"
    by (auto simp: cell_caps_def split: if_splits)
  from try_captures_sound(1)[OF assms(1) good_start, of sd "snd rc" "cell b (fst rc) (snd rc)"
      "[rc]" "[]" b]
  show ?thesis
    using assms(2) own by (auto simp: cell_caps_def start_state_def)
qed

lemma cell_caps_distinct:
  assumes "0 \<le> fst rc"
  shows "distinct (map move_key (cell_caps sd b rc))"
  using try_captures_sound(1)[OF assms good_start, of sd "snd rc" "cell b (fst rc) (snd rc)"
      "[rc]" "[]" b]
  by (auto simp: cell_caps_def good_def)

lemma cell_caps_nonempty_iff:
  assumes "0 \<le> fst rc"
  shows "cell_caps sd b rc \<noteq> [] \<longleftrightarrow>
         own sd (cell b (fst rc) (snd rc)) \<and>
         (\<exists>d \<in> set (Directions (cell b (fst rc) (snd rc))). can_jump sd b (fst rc) (snd rc) d)"
proof (cases "own sd (cell b (fst rc) (snd rc))")
  case False
  then show ?thesis by (simp add: cell_caps_def)
next
  case True
  let ?pc = "cell b (fst rc) (snd rc)"
  let ?td = "try_directions sd (fst rc) (snd rc) ?pc [rc] [] (Directions ?pc) False (start_state b)"
  have eq: "try_captures sd (fst rc) (snd rc) ?pc [rc] [] (start_state b) = snd ?td"
    by (cases ?td) (simp add: try_captures.simps)
  from try_captures_sound(2)[OF assms good_start, of "Directions ?pc" ?pc False b sd "snd rc"
      "[rc]" "[]"]
  obtain ys where ys: "captures (snd ?td) = ys"
    and sub: "set ys \<subseteq> dirs_finals sd (pos_of (fst rc) (snd rc) ?pc [rc] [] b) (Directions ?pc)"
    and fnd: "fst ?td \<longleftrightarrow> (\<exists>d \<in> set (Directions ?pc).
                 jumpable sd (pos_of (fst rc) (snd rc) ?pc [rc] [] b) d)"
    and ne: "fst ?td \<longrightarrow> captures (snd ?td) \<noteq> []"
    by (auto simp: start_state_def)
  have j: "\<And>d. jumpable sd (pos_of (fst rc) (snd rc) ?pc [rc] [] b) d \<longleftrightarrow>
              can_jump sd b (fst rc) (snd rc) d"
    by (simp add: jumpable_def pos_of_def)
  show ?thesis
  proof (cases "fst ?td")
    case True
    then show ?thesis
      using ne fnd j \<open>own sd ?pc\<close> by (simp add: cell_caps_def eq)
  next
    case False
    then have "dirs_finals sd (pos_of (fst rc) (snd rc) ?pc [rc] [] b) (Directions ?pc) = {}"
      using fnd by (auto simp: dirs_finals_def)
    then have "ys = []" using sub by simp
    then show ?thesis
      using False fnd j ys \<open>own sd ?pc\<close> by (simp add: cell_caps_def eq)
  qed
qed

lemma finals_is_capture:
  assumes "m \<in> finals sd c"
  shows "is_capture m \<and> captured m \<noteq> []"
  using assms by (auto simp: finals_def chain_move_def)

lemma all_cells_nonneg: "rc \<in> set all_cells \<Longrightarrow> 0 \<le> fst rc"
  by (auto simp: set_all_cells Inside_def)

lemma fold_try_quiet:
  "fold (\<lambda>d qs. try_quiet b r c (fst d) (snd d) qs) ds acc =
   acc @ map (\<lambda>d. \<lparr>StartingMoveLocation = (r, c),
                    TargetingMoveLocation = (r + fst d, c + snd d),
                    path = [(r, c), (r + fst d, c + snd d)],
                    is_capture = False, captured = []\<rparr>)
           (filter (\<lambda>d. Inside (r + fst d) (c + snd d) \<and> cell b (r + fst d) (c + snd d) = Empty) ds)"
  by (induction ds arbitrary: acc) (simp_all add: try_quiet_def Let_def)

lemma cell_quiets_eq:
  "cell_quiets sd b rc =
     (if own sd (cell b (fst rc) (snd rc)) then
        map (\<lambda>d. \<lparr>StartingMoveLocation = rc,
                    TargetingMoveLocation = (fst rc + fst d, snd rc + snd d),
                    path = [rc, (fst rc + fst d, snd rc + snd d)],
                    is_capture = False, captured = []\<rparr>)
          (filter (\<lambda>d. Inside (fst rc + fst d) (snd rc + snd d) \<and>
                        cell b (fst rc + fst d) (snd rc + snd d) = Empty)
             (Directions (cell b (fst rc) (snd rc))))
      else [])"
  by (simp add: cell_quiets_def fold_try_quiet[of b "fst rc" "snd rc", simplified])

lemma cell_quiets_not_capture:
  "m \<in> set (cell_quiets sd b rc) \<Longrightarrow> \<not> is_capture m \<and> captured m = []"
  by (auto simp: cell_quiets_eq split: if_splits)

lemma caps_are_captures:
  assumes "m \<in> set (concat (map (cell_caps sd b) all_cells))"
  shows "is_capture m \<and> captured m \<noteq> []"
  using assms cell_caps_finals[OF all_cells_nonneg] finals_is_capture by fastforce

lemma wf_board_cell_in:
  assumes "wf_board b" and "Inside r c"
  shows "\<exists>row \<in> set b. cell b r c \<in> set row"
proof -
  have r: "nat r < length b"
    using assms by (auto simp: wf_board_def Inside_def bsize_def nat_less_iff)
  then have "b ! nat r \<in> set b" by simp
  moreover from this have "nat c < length (b ! nat r)"
    using assms by (auto simp: wf_board_def Inside_def bsize_def nat_less_iff)
  ultimately show ?thesis
    by (auto simp: cell_def intro!: bexI[of _ "b ! nat r"])
qed

lemma no_pieces_not_own:
  assumes "wf_board b" and "\<not> HasPieces b sd" and "Inside r c"
  shows "\<not> own sd (cell b r c)"
  using wf_board_cell_in[OF assms(1,3)] assms(2)
  by (auto simp: HasPieces_def own_def Let_def split: if_splits)

lemma no_pieces_no_moves:
  assumes "wf_board b" and "\<not> HasPieces b sd"
  shows "fst (AllLegalMoves b sd) = []"
proof -
  have "\<And>rc. rc \<in> set all_cells \<Longrightarrow> \<not> own sd (cell b (fst rc) (snd rc))"
    using no_pieces_not_own[OF assms] by (auto simp: set_all_cells)
  then show ?thesis
    by (simp add: AllLegalMoves_eq cell_caps_def cell_quiets_def)
qed

text \<open>The rules of the game as the specification words them, to compare the generated
  moves with. A Man moves diagonally forward only (White towards row 0, Black towards
  row 7); a King moves diagonally in all four directions.\<close>

definition rule_Directions :: "piece \<Rightarrow> (int \<times> int) list" where
  "rule_Directions p =
     (case p of
        Empty \<Rightarrow> []
      | WMan \<Rightarrow> [(-1, -1), (-1, 1)]
      | WKing \<Rightarrow> [(-1, -1), (-1, 1), (1, -1), (1, 1)]
      | BMan \<Rightarrow> [(1, -1), (1, 1)]
      | BKing \<Rightarrow> [(1, -1), (1, 1), (-1, -1), (-1, 1)])"

text \<open>A capture exists for a side when one of its pieces has, in one of the directions the
  rules give it, an opponent piece on the adjacent square and an empty square of the board
  behind it.\<close>

definition rule_capture_exists :: "side \<Rightarrow> grid \<Rightarrow> bool" where
  "rule_capture_exists sd b =
     list_ex (\<lambda>rc. own sd (cell b (fst rc) (snd rc)) \<and>
                   list_ex (\<lambda>d. can_jump sd b (fst rc) (snd rc) d)
                     (rule_Directions (cell b (fst rc) (snd rc))))
       all_cells"

text \<open>The quiet moves of a side under the rules: from each of its pieces, in scan order, one
  step in each of the directions the rules give it onto an empty square of the board.\<close>

definition rule_quiet_moves :: "side \<Rightarrow> grid \<Rightarrow> Move list" where
  "rule_quiet_moves sd b =
     concat (map (\<lambda>rc.
       if own sd (cell b (fst rc) (snd rc)) then
         map (\<lambda>d. \<lparr>StartingMoveLocation = rc,
                    TargetingMoveLocation = (fst rc + fst d, snd rc + snd d),
                    path = [rc, (fst rc + fst d, snd rc + snd d)],
                    is_capture = False, captured = []\<rparr>)
           (filter (\<lambda>d. Inside (fst rc + fst d) (snd rc + snd d) \<and>
                         cell b (fst rc + fst d) (snd rc + snd d) = Empty)
              (rule_Directions (cell b (fst rc) (snd rc))))
       else []) all_cells)"

text \<open>No square of the board holds a Black king.\<close>

definition no_black_king :: "grid \<Rightarrow> bool" where
  "no_black_king b = list_all (\<lambda>rc. cell b (fst rc) (snd rc) \<noteq> BKing) all_cells"

lemma Directions_rule:
  "p \<noteq> BKing \<Longrightarrow> p \<noteq> Empty \<Longrightarrow> Directions p = rule_Directions p"
  by (cases p) (simp_all add: Directions_def rule_Directions_def)

lemma own_directions_rule:
  assumes "sd = Black \<longrightarrow> no_black_king b" and "rc \<in> set all_cells"
    and "own sd (cell b (fst rc) (snd rc))"
  shows "Directions (cell b (fst rc) (snd rc)) = rule_Directions (cell b (fst rc) (snd rc))"
proof -
  have "cell b (fst rc) (snd rc) \<noteq> BKing" "cell b (fst rc) (snd rc) \<noteq> Empty"
    using assms by (cases sd; auto simp: own_def no_black_king_def list_all_iff)+
  then show ?thesis by (rule Directions_rule)
qed

text \<open>Where the piece's directions are those of the rules, which is so for every piece but
  the Black king, mandatory capture holds: for White always, and for Black on a board
  without a Black king, a capture that exists under the rules makes the result a non-empty
  list of capture moves only, and without one the result is the list of quiet moves of the
  rules.\<close>

lemma mandatory_capture_without_black_king:
  assumes "sd = Black \<longrightarrow> no_black_king b"
  shows "(rule_capture_exists sd b \<longrightarrow>
            fst (AllLegalMoves b sd) \<noteq> [] \<and>
            (\<forall>m \<in> set (fst (AllLegalMoves b sd)). is_capture m \<and> captured m \<noteq> [])) \<and>
         (\<not> rule_capture_exists sd b \<longrightarrow> fst (AllLegalMoves b sd) = rule_quiet_moves sd b)"
proof -
  have one: "cell_caps sd b rc \<noteq> [] \<longleftrightarrow>
               own sd (cell b (fst rc) (snd rc)) \<and>
               (\<exists>d \<in> set (rule_Directions (cell b (fst rc) (snd rc))).
                  can_jump sd b (fst rc) (snd rc) d)"
    if "rc \<in> set all_cells" for rc
  proof (cases "own sd (cell b (fst rc) (snd rc))")
    case True
    show ?thesis
      unfolding cell_caps_nonempty_iff[OF all_cells_nonneg[OF that]]
        own_directions_rule[OF assms that True] ..
  next
    case False
    then show ?thesis by (simp add: cell_caps_def)
  qed
  have "rule_capture_exists sd b \<longleftrightarrow> (\<exists>rc \<in> set all_cells. cell_caps sd b rc \<noteq> [])"
    unfolding rule_capture_exists_def list_ex_iff using one by blast
  then have ex: "rule_capture_exists sd b \<longleftrightarrow> concat (map (cell_caps sd b) all_cells) \<noteq> []"
    by simp
  have q: "concat (map (cell_quiets sd b) all_cells) = rule_quiet_moves sd b"
    unfolding rule_quiet_moves_def
    by (rule arg_cong[where f = concat], rule map_cong[OF refl])
       (simp add: cell_quiets_eq own_directions_rule[OF assms])
  show ?thesis
    using caps_are_captures[of _ sd b] by (auto simp: ex q AllLegalMoves_eq)
qed

text \<open>Generated capture moves are flagged as captures and have captured squares, generated
  quiet moves are not and have none, whatever the board and the side.\<close>

lemma generated_moves_flags:
  assumes "m \<in> set (fst (AllLegalMoves b sd))"
  shows "is_capture m \<longleftrightarrow> captured m \<noteq> []"
proof (cases "concat (map (cell_caps sd b) all_cells) = []")
  case True
  then have "m \<in> set (concat (map (cell_quiets sd b) all_cells))"
    using assms by (simp add: AllLegalMoves_eq)
  then show ?thesis using cell_quiets_not_capture by auto
next
  case False
  then have "m \<in> set (concat (map (cell_caps sd b) all_cells))"
    using assms by (simp add: AllLegalMoves_eq)
  then show ?thesis using caps_are_captures by blast
qed

text \<open>A Black king on (4, 3) with a White man up-right of it on (3, 4) and (2, 5) free behind
  that man.\<close>

definition black_king_jump_board :: grid where
  "black_king_jump_board = put (put empty_board 4 3 BKing) 3 4 WMan"

definition quiet_step :: "Coordinate \<Rightarrow> Coordinate \<Rightarrow> Move" where
  "quiet_step s t =
     \<lparr>StartingMoveLocation = s, TargetingMoveLocation = t, path = [s, t],
      is_capture = False, captured = []\<rparr>"

text \<open>
  Claim C2. If any capture exists for the side, \<^verbatim>\<open>AllLegalMoves\<close> is to return capture moves
  only. On the board with a Black king on (4, 3) and a White man on (3, 4) a capture exists
  for Black: the king jumps up-right over (3, 4) onto the empty square (2, 5). Yet
  \<^verbatim>\<open>AllLegalMoves\<close> returns four quiet moves and no capture, because \<^verbatim>\<open>_Directions\<close> never
  gives a Black king the direction (-1, 1).
\<close>

theorem black_king_capture_not_mandatory:
  "own Black (cell black_king_jump_board 4 3) \<and>
   can_jump Black black_king_jump_board 4 3 (-1, 1) \<and>
   rule_capture_exists Black black_king_jump_board \<and>
   fst (AllLegalMoves black_king_jump_board Black) =
     [quiet_step (4, 3) (5, 2), quiet_step (4, 3) (5, 4),
      quiet_step (4, 3) (3, 2), quiet_step (4, 3) (5, 4)] \<and>
   filter is_capture (fst (AllLegalMoves black_king_jump_board Black)) = []"
  by code_simp

subsection \<open>Maximal chains\<close>

text \<open>A Black man on (2, 1) next to a White man on (3, 2), with (4, 3) free behind it.\<close>

definition single_jump_board :: grid where
  "single_jump_board = put (put empty_board 2 1 BMan) 3 2 WMan"

text \<open>Promotion as the specification words it: a Man that lands on the opponent's back
  rank, row 0 for White and row 7 for Black, becomes a King; every other piece keeps its
  rank.\<close>

definition rule_promote :: "piece \<Rightarrow> int \<Rightarrow> piece" where
  "rule_promote p lr =
     (if p = WMan \<and> lr = 0 then WKing else if p = BMan \<and> lr = 7 then BKing else p)"

text \<open>Replaying a chain on a board: for each jump, the square left and the square jumped
  over are cleared and the mover, promoted if it lands on the back rank, is put on the
  landing square. The result is the board and the rank of the mover after the chain.\<close>

fun rule_replay :: "Coordinate list \<Rightarrow> Coordinate list \<Rightarrow> grid \<times> piece \<Rightarrow> grid \<times> piece" where
  "rule_replay (f # l # pth) (m # capt) (b, p) =
     rule_replay (l # pth) capt
       (put (put (put b (fst f) (snd f) Empty) (fst m) (snd m) Empty) (fst l) (snd l)
          (rule_promote p (fst l)),
        rule_promote p (fst l))"
| "rule_replay [] capt bp = bp"
| "rule_replay [f] capt bp = bp"
| "rule_replay (f # l # pth) [] bp = bp"

text \<open>A capture move is a maximal chain on a board when, on the board that replaying the
  chain gives and with the rank the mover has after it, no direction that the rules give
  this rank offers a jump from the end square over an opponent piece that the chain has not
  captured yet onto an empty square.\<close>

definition rule_maximal_chain :: "side \<Rightarrow> grid \<Rightarrow> Move \<Rightarrow> bool" where
  "rule_maximal_chain sd b m =
     (case rule_replay (path m) (captured m)
             (b, cell b (fst (StartingMoveLocation m)) (snd (StartingMoveLocation m))) of
        (b', p') \<Rightarrow>
          list_all (\<lambda>d. \<not> (can_jump sd b' (fst (TargetingMoveLocation m))
                                (snd (TargetingMoveLocation m)) d \<and>
                             (fst (TargetingMoveLocation m) + fst d,
                              snd (TargetingMoveLocation m) + snd d) \<notin> set (captured m)))
            (rule_Directions p'))"

text \<open>The rank of the mover at the end of a move's chain.\<close>

definition final_rank :: "grid \<Rightarrow> Move \<Rightarrow> piece" where
  "final_rank b m =
     snd (rule_replay (path m) (captured m)
            (b, cell b (fst (StartingMoveLocation m)) (snd (StartingMoveLocation m))))"

lemma rule_replay_snoc:
  "length pth = Suc (length capt) \<Longrightarrow>
   rule_replay (pth @ [l]) (capt @ [m]) bp =
     (case rule_replay pth capt bp of
        (b, p) \<Rightarrow>
          (put (put (put b (fst (last pth)) (snd (last pth)) Empty) (fst m) (snd m) Empty)
             (fst l) (snd l) (rule_promote p (fst l)),
           rule_promote p (fst l)))"
proof (induction pth capt bp rule: rule_replay.induct)
  case (1 f l pth m capt b p)
  then show ?case by simp
next
  case (2 capt bp)
  then show ?case by simp
next
  case (3 f capt bp)
  then show ?case by (cases bp) simp
next
  case (4 f l pth bp)
  then show ?case by simp
qed

lemma landed_rule:
  assumes "own sd p"
  shows "landed sd lr p = rule_promote p lr" and "own sd (landed sd lr p)"
  using assms
  by (cases sd; cases p; simp add: landed_def rule_promote_def own_def Let_def bsize_def)+

definition played :: "side \<Rightarrow> grid \<Rightarrow> piece \<Rightarrow> chain_pos \<Rightarrow> bool" where
  "played sd b0 p0 c \<longleftrightarrow>
     rule_replay (trail c) (taken c) (b0, p0) = (position c, rank c) \<and> own sd (rank c) \<and>
     length (trail c) = Suc (length (taken c)) \<and> last (trail c) = (at_row c, at_col c)"

lemma played_start: "own sd pc \<Longrightarrow> played sd b pc (pos_of r c pc [(r, c)] [] b)"
  by (simp add: played_def pos_of_def)

lemma played_step:
  assumes "played sd b0 p0 c" and "jump_step sd c c'"
  shows "played sd b0 p0 c'"
proof -
  from assms(2) obtain d where c': "c' = next_pos sd c d"
    by (auto simp: jump_step_def)
  have own: "own sd (rank c)" using assms(1) by (simp add: played_def)
  have own': "own sd (rule_promote (rank c) lr)" for lr
    using landed_rule(2)[OF own, of lr] by (simp only: landed_rule(1)[OF own])
  show ?thesis
    using assms(1) own' unfolding c'
    by (simp add: played_def next_pos_def rule_replay_snoc jump_board_def landed_rule(1)[OF own])
qed

lemma played_steps:
  assumes "(jump_step sd)\<^sup>*\<^sup>* c c'" and "played sd b0 p0 c"
  shows "played sd b0 p0 c'"
  using assms by (induction rule: rtranclp_induct) (auto intro: played_step)

lemma finals_chain:
  assumes "Inside r c" and "own sd (cell b r c)"
    and "m \<in> finals sd (pos_of r c (cell b r c) [(r, c)] [] b)"
  shows "StartingMoveLocation m = (r, c) \<and> distinct (captured m) \<and> own sd (final_rank b m) \<and>
         (final_rank b m \<noteq> BKing \<longrightarrow> rule_maximal_chain sd b m)"
proof -
  let ?c0 = "pos_of r c (cell b r c) [(r, c)] [] b"
  from assms(3) obtain c' where m: "m = chain_move c'"
    and ch: "(jump_step sd)\<^sup>*\<^sup>* ?c0 c'" and st: "stuck sd c'"
    by (auto simp: finals_def)
  have inv: "chain_inv (r, c) c'"
    using chain_inv_steps[OF ch chain_inv_start[OF assms(1)]] .
  have pl: "played sd b (cell b r c) c'"
    using played_steps[OF ch played_start[OF assms(2)]] .
  have start: "StartingMoveLocation m = (r, c)"
    using inv by (simp add: m chain_move_def chain_inv_def)
  have dist: "distinct (captured m)"
    using inv by (simp add: m chain_move_def chain_inv_def)
  have rp: "rule_replay (path m) (captured m) (b, cell b r c) = (position c', rank c')"
    using pl by (simp add: m chain_move_def played_def)
  have fr: "final_rank b m = rank c'"
    by (simp add: final_rank_def start rp)
  have own': "own sd (rank c')" using pl by (simp add: played_def)
  have ne: "rank c' \<noteq> Empty" using own' by (cases sd) (auto simp: own_def)
  have tgt: "TargetingMoveLocation m = (at_row c', at_col c')"
    using inv by (simp add: m chain_move_def chain_inv_def)
  have cap: "captured m = taken c'" by (simp add: m chain_move_def)
  have "rule_maximal_chain sd b m" if "rank c' \<noteq> BKing"
  proof -
    have "\<forall>d \<in> set (rule_Directions (rank c')). \<not> jumpable sd c' d"
      using st by (simp add: stuck_def Directions_rule[OF that ne])
    then show ?thesis
      unfolding rule_maximal_chain_def start fst_conv snd_conv rp tgt
      by (simp add: cap jumpable_def list_all_iff)
  qed
  with start dist own' fr show ?thesis by simp
qed

lemma cell_caps_chain:
  assumes "rc \<in> set all_cells" and "m \<in> set (cell_caps sd b rc)"
  shows "StartingMoveLocation m = rc \<and> distinct (captured m) \<and> own sd (final_rank b m) \<and>
         (final_rank b m \<noteq> BKing \<longrightarrow> rule_maximal_chain sd b m)"
proof -
  have ins: "Inside (fst rc) (snd rc)" using assms(1) by (auto simp: set_all_cells)
  have own: "own sd (cell b (fst rc) (snd rc))"
    using assms(2) by (auto simp: cell_caps_def split: if_splits)
  have "m \<in> finals sd (pos_of (fst rc) (snd rc) (cell b (fst rc) (snd rc)) [(fst rc, snd rc)] [] b)"
    using cell_caps_finals[OF all_cells_nonneg[OF assms(1)] assms(2)] by simp
  from finals_chain[OF ins own this] show ?thesis by simp
qed

lemma distinct_all_cells: "distinct all_cells"
  by (simp add: all_cells_def distinct_product)

lemma caps_keys_distinct:
  assumes "distinct cells" and "set cells \<subseteq> set all_cells"
  shows "distinct (map move_key (concat (map (cell_caps sd b) cells)))"
  using assms
proof (induction cells)
  case Nil
  then show ?case by simp
next
  case (Cons rc cells)
  have here: "distinct (map move_key (cell_caps sd b rc))"
    using Cons.prems by (intro cell_caps_distinct all_cells_nonneg) simp
  have k1: "\<And>m. m \<in> set (cell_caps sd b rc) \<Longrightarrow> fst (move_key m) = rc"
    using cell_caps_chain[of rc _ sd b] Cons.prems by (simp add: move_key_def)
  have k2: "\<And>m. m \<in> set (concat (map (cell_caps sd b) cells)) \<Longrightarrow> fst (move_key m) \<in> set cells"
    using cell_caps_chain[of _ _ sd b] Cons.prems by (fastforce simp: move_key_def)
  have disj: "set (map move_key (cell_caps sd b rc)) \<inter>
              set (map move_key (concat (map (cell_caps sd b) cells))) = {}"
  proof (rule ccontr)
    assume "\<not> ?thesis"
    then obtain k where a: "k \<in> set (map move_key (cell_caps sd b rc))"
      and b: "k \<in> set (map move_key (concat (map (cell_caps sd b) cells)))"
      by blast
    from a k1 have "fst k = rc" by auto
    moreover from b k2 have "fst k \<in> set cells" by auto
    ultimately show False using Cons.prems(1) by simp
  qed
  show ?case
    using here Cons.IH Cons.prems disj by simp
qed

text \<open>What holds of the capture moves generated, for every board and side: the captured
  list of a capture move has no repeated coordinate, no two capture moves of the returned
  list have the same key (start, path, captured), and a capture move whose mover does not
  end the chain as a Black king, so every capture move of White, is a maximal chain.\<close>

lemma capture_moves_chains:
  "(\<forall>m \<in> set (fst (AllLegalMoves b sd)).
      is_capture m \<longrightarrow>
        distinct (captured m) \<and> (final_rank b m \<noteq> BKing \<longrightarrow> rule_maximal_chain sd b m)) \<and>
   distinct (map move_key (filter is_capture (fst (AllLegalMoves b sd))))"
proof (cases "concat (map (cell_caps sd b) all_cells) = []")
  case True
  then have q: "fst (AllLegalMoves b sd) = concat (map (cell_quiets sd b) all_cells)"
    by (simp add: AllLegalMoves_eq)
  have nc: "\<forall>m \<in> set (concat (map (cell_quiets sd b) all_cells)). \<not> is_capture m"
    using cell_quiets_not_capture[of _ sd b] by auto
  then have "filter is_capture (concat (map (cell_quiets sd b) all_cells)) = []"
    by (simp add: filter_empty_conv)
  then show ?thesis
    unfolding q using nc by auto
next
  case False
  then have q: "fst (AllLegalMoves b sd) = concat (map (cell_caps sd b) all_cells)"
    by (simp add: AllLegalMoves_eq)
  have all: "\<forall>m \<in> set (concat (map (cell_caps sd b) all_cells)).
               distinct (captured m) \<and> (final_rank b m \<noteq> BKing \<longrightarrow> rule_maximal_chain sd b m)"
    using cell_caps_chain[of _ _ sd b] by auto
  have "filter is_capture (concat (map (cell_caps sd b) all_cells)) =
        concat (map (cell_caps sd b) all_cells)"
    using caps_are_captures[of _ sd b] by (simp add: filter_id_conv)
  then show ?thesis
    unfolding q using all caps_keys_distinct[OF distinct_all_cells subset_refl, of sd b]
    by simp
qed

lemma White_capture_moves_maximal:
  assumes "m \<in> set (fst (AllLegalMoves b White))" and "is_capture m"
  shows "rule_maximal_chain White b m"
proof -
  have ne: "concat (map (cell_caps White b) all_cells) \<noteq> []"
  proof
    assume "concat (map (cell_caps White b) all_cells) = []"
    then have "m \<in> set (concat (map (cell_quiets White b) all_cells))"
      using assms(1) by (simp add: AllLegalMoves_eq)
    then show False using cell_quiets_not_capture[of m White b] assms(2) by auto
  qed
  then have "m \<in> set (concat (map (cell_caps White b) all_cells))"
    using assms(1) by (simp add: AllLegalMoves_eq)
  then obtain rc where "rc \<in> set all_cells" "m \<in> set (cell_caps White b rc)" by auto
  from cell_caps_chain[OF this] show ?thesis by (auto simp: own_def)
qed

text \<open>A White king on (4, 1) with Black men on (3, 2), (3, 4), (5, 4) and (5, 2): it can
  jump around the four of them, either way, and come back to (4, 1).\<close>

definition round_trip_board :: grid where
  "round_trip_board =
     put (put (put (put (put empty_board 4 1 WKing) 3 2 BMan) 3 4 BMan) 5 4 BMan) 5 2 BMan"

definition round_trip_move :: Move where
  "round_trip_move =
     \<lparr>StartingMoveLocation = (4, 1), TargetingMoveLocation = (4, 1),
      path = [(4, 1), (2, 3), (4, 5), (6, 3), (4, 1)], is_capture = True,
      captured = [(3, 2), (3, 4), (5, 4), (5, 2)]\<rparr>"

lemma round_trip_legal: "round_trip_move \<in> set (fst (AllLegalMoves round_trip_board White))"
  by code_simp

text \<open>A Black king on (2, 1) with White men on (3, 2) and (3, 4): after the jump over (3, 2)
  onto (4, 3) the king can jump up-right over (3, 4) onto (2, 5).\<close>

definition double_jump_board :: grid where
  "double_jump_board = put (put (put empty_board 2 1 BKing) 3 2 WMan) 3 4 WMan"

definition short_king_chain :: Move where
  "short_king_chain =
     \<lparr>StartingMoveLocation = (2, 1), TargetingMoveLocation = (4, 3),
      path = [(2, 1), (4, 3)], is_capture = True, captured = [(3, 2)]\<rparr>"

text \<open>A Black man on (5, 2) with White men on (6, 3) and (6, 5): the jump over (6, 3) onto
  (7, 4) promotes the man, and the new king can jump up-right over (6, 5) onto (5, 6).\<close>

definition promotion_jump_board :: grid where
  "promotion_jump_board = put (put (put empty_board 5 2 BMan) 6 3 WMan) 6 5 WMan"

definition short_promotion_chain :: Move where
  "short_promotion_chain =
     \<lparr>StartingMoveLocation = (5, 2), TargetingMoveLocation = (7, 4),
      path = [(5, 2), (7, 4)], is_capture = True, captured = [(6, 3)]\<rparr>"

text \<open>
  Claim C3. Every capture move generated is to be a maximal chain: from its end, with the
  rank the piece has after any promotion within the chain, no further jump over an opponent
  piece not yet captured onto an empty square is possible. For the Black king on (2, 1)
  with White men on (3, 2) and (3, 4), \<^verbatim>\<open>AllLegalMoves\<close> returns the single chain from (2, 1)
  to (4, 3) capturing (3, 2); on the board after this chain the king on (4, 3) can still
  jump up-right over the man on (3, 4), not yet captured, onto the empty square (2, 5), so
  the chain is not maximal. The same happens to the Black man on (5, 2) that is promoted on
  (7, 4) within the chain: the chain stops there although the new king can jump over
  (6, 5) onto (5, 6). Both come from \<^verbatim>\<open>_Directions\<close> never giving a Black king the
  direction (-1, 1).
\<close>

theorem black_king_chain_not_maximal:
  "fst (AllLegalMoves double_jump_board Black) = [short_king_chain] \<and>
   rule_replay (path short_king_chain) (captured short_king_chain) (double_jump_board, BKing) =
     (put (put empty_board 3 4 WMan) 4 3 BKing, BKing) \<and>
   can_jump Black (put (put empty_board 3 4 WMan) 4 3 BKing) 4 3 (-1, 1) \<and>
   (3, 4) \<notin> set (captured short_king_chain) \<and>
   \<not> rule_maximal_chain Black double_jump_board short_king_chain \<and>
   fst (AllLegalMoves promotion_jump_board Black) = [short_promotion_chain] \<and>
   rule_replay (path short_promotion_chain) (captured short_promotion_chain)
       (promotion_jump_board, BMan) =
     (put (put empty_board 6 5 WMan) 7 4 BKing, BKing) \<and>
   can_jump Black (put (put empty_board 6 5 WMan) 7 4 BKing) 7 4 (-1, 1) \<and>
   (6, 5) \<notin> set (captured short_promotion_chain) \<and>
   \<not> rule_maximal_chain Black promotion_jump_board short_promotion_chain"
  by code_simp

subsection \<open>Move application\<close>

lemma py_index_in: "0 \<le> i \<Longrightarrow> i < int (length xs) \<Longrightarrow> py_index xs i = Some (nat i)"
  by (simp add: py_index_def)

lemma wf_board_row:
  assumes "wf_board b" and "Inside r c"
  shows "nat r < length b" and "length (b ! nat r) = 8" and "nat c < length (b ! nat r)"
    and "int (length b) = 8"
proof -
  show r: "nat r < length b"
    using assms by (auto simp: wf_board_def Inside_def bsize_def nat_less_iff)
  then have "b ! nat r \<in> set b" by simp
  then show l: "length (b ! nat r) = 8" using assms(1) by (simp add: wf_board_def)
  show "nat c < length (b ! nat r)"
    unfolding l using assms(2) by (auto simp: Inside_def bsize_def nat_less_iff)
  show "int (length b) = 8" using assms(1) by (simp add: wf_board_def)
qed

lemma wf_board_put:
  assumes "wf_board b"
  shows "wf_board (put b r c p)"
proof (cases "nat r < length b")
  case True
  then have "length ((b ! nat r)[nat c := p]) = 8"
    using assms by (simp add: wf_board_def)
  moreover have "set (put b r c p) \<subseteq> insert ((b ! nat r)[nat c := p]) (set b)"
    unfolding put_def by (rule set_update_subset_insert)
  ultimately show ?thesis
    using assms by (auto simp: wf_board_def put_def)
next
  case False
  then have "put b r c p = b" by (simp add: put_def list_update_beyond)
  then show ?thesis using assms by simp
qed

lemma Clone_id [simp]: "Clone b = b"
  by (simp add: Clone_def)

lemma SetPiece_in:
  assumes "wf_board b" and "Inside r c"
  shows "SetPiece b (r, c) p = Some (put b r c p)"
  using assms wf_board_row[OF assms]
  by (simp add: SetPiece_def py_index_in Inside_def bsize_def put_def)

lemma PieceAt_in:
  assumes "wf_board b" and "Inside r c"
  shows "PieceAt b (r, c) = Some (cell b r c)"
  using assms wf_board_row[OF assms]
  by (simp add: PieceAt_def py_index_in Inside_def bsize_def cell_def)

lemma cell_put:
  assumes "wf_board b" and "Inside r c" and "Inside r' c'"
  shows "cell (put b r c p) r' c' = (if r' = r \<and> c' = c then p else cell b r' c')"
  using wf_board_row[OF assms(1,2)] wf_board_row[OF assms(1,3)] assms(2,3)
  by (auto simp: cell_def put_def nth_list_update Inside_def)

definition clear_all :: "Coordinate list \<Rightarrow> grid \<Rightarrow> grid" where
  "clear_all cs b = fold (\<lambda>x b'. put b' (fst x) (snd x) Empty) cs b"

lemma wf_board_clear_all: "wf_board b \<Longrightarrow> wf_board (clear_all cs b)"
  unfolding clear_all_def by (induction cs arbitrary: b) (simp_all add: wf_board_put)

lemma clear_cells_in:
  assumes "wf_board b" and "\<forall>x \<in> set cs. Inside (fst x) (snd x)"
  shows "clear_cells b cs = Some (clear_all cs b)"
  using assms
proof (induction cs arbitrary: b)
  case Nil
  then show ?case by (simp add: clear_all_def)
next
  case (Cons x cs)
  have "SetPiece b x Empty = Some (put b (fst x) (snd x) Empty)"
    using SetPiece_in[of b "fst x" "snd x" Empty] Cons.prems by simp
  then show ?case
    using Cons.IH[of "put b (fst x) (snd x) Empty"] Cons.prems
    by (simp add: clear_all_def wf_board_put)
qed

lemma cell_clear_all:
  assumes "wf_board b" and "\<forall>x \<in> set cs. Inside (fst x) (snd x)" and "Inside r c"
  shows "cell (clear_all cs b) r c = (if (r, c) \<in> set cs then Empty else cell b r c)"
  using assms
proof (induction cs arbitrary: b)
  case Nil
  then show ?case by (simp add: clear_all_def)
next
  case (Cons x cs)
  have ix: "Inside (fst x) (snd x)" using Cons.prems by simp
  have wf': "wf_board (put b (fst x) (snd x) Empty)"
    using Cons.prems(1) by (rule wf_board_put)
  have step: "clear_all (x # cs) b = clear_all cs (put b (fst x) (snd x) Empty)"
    by (simp add: clear_all_def)
  show ?case
    unfolding step
    using Cons.IH[OF wf' _ Cons.prems(3)] Cons.prems(2)
      cell_put[OF Cons.prems(1) ix Cons.prems(3), of Empty]
    by (cases x) auto
qed

definition promoted :: "piece \<Rightarrow> int \<Rightarrow> piece" where
  "promoted pc tr =
     (if pc = WMan \<and> tr = 0 then WKing else if pc = BMan \<and> tr = 7 then BKing else pc)"

definition applicable :: "Move \<Rightarrow> bool" where
  "applicable m \<longleftrightarrow>
     Inside (fst (StartingMoveLocation m)) (snd (StartingMoveLocation m)) \<and>
     Inside (fst (TargetingMoveLocation m)) (snd (TargetingMoveLocation m)) \<and>
     list_all (\<lambda>x. Inside (fst x) (snd x)) (captured m)"

lemma ApplyMove_in:
  assumes "wf_board b" and "applicable m"
  shows "ApplyMove b m =
         Some (put (clear_all (captured m)
                      (put b (fst (StartingMoveLocation m)) (snd (StartingMoveLocation m)) Empty))
                 (fst (TargetingMoveLocation m)) (snd (TargetingMoveLocation m))
                 (promoted (cell b (fst (StartingMoveLocation m)) (snd (StartingMoveLocation m)))
                    (fst (TargetingMoveLocation m))))"
proof -
  obtain sr sc where s: "StartingMoveLocation m = (sr, sc)" by (cases "StartingMoveLocation m")
  obtain tr tc where t: "TargetingMoveLocation m = (tr, tc)" by (cases "TargetingMoveLocation m")
  have ins: "Inside sr sc" and it: "Inside tr tc"
    and ic: "\<forall>x \<in> set (captured m). Inside (fst x) (snd x)"
    using assms(2) by (simp_all add: applicable_def s t list_all_iff)
  have wf1: "wf_board (put b sr sc Empty)" using assms(1) by (rule wf_board_put)
  have wf2: "wf_board (clear_all (captured m) (put b sr sc Empty))"
    using wf1 by (rule wf_board_clear_all)
  show ?thesis
    by (simp add: ApplyMove_def s t PieceAt_in[OF assms(1) ins] SetPiece_in[OF assms(1) ins]
        clear_cells_in[OF wf1 ic] SetPiece_in[OF wf2 it] promoted_def bsize_def)
qed

lemma ApplyMove_wf:
  assumes "wf_board b" and "applicable m" and "ApplyMove b m = Some b'"
  shows "wf_board b'"
  using assms(3) unfolding ApplyMove_in[OF assms(1,2)]
  using wf_board_put[OF wf_board_clear_all[OF wf_board_put[OF assms(1)]]] by auto

text \<open>
  Claim C5, as the code has it. On an 8x8 board, for a move whose coordinates are all on
  the board and whose start cell holds the piece \<open>pc\<close>: \<^verbatim>\<open>ApplyMove\<close> returns a board on
  which the start cell (unless it ins the end cell) and every captured cell (other than the
  end cell) are empty, and the end cell holds \<open>pc\<close>, promoted to a King exactly when \<open>pc\<close>
  ins a White man ending on row 0 or a Black man ending on row 7.
\<close>

theorem ApplyMove_cells:
  assumes "wf_board b" and "applicable m" and "PieceAt b (StartingMoveLocation m) = Some pc"
    and "pc \<noteq> Empty"
  shows "\<exists>b'. ApplyMove b m = Some b' \<and>
           (StartingMoveLocation m \<noteq> TargetingMoveLocation m \<longrightarrow>
              PieceAt b' (StartingMoveLocation m) = Some Empty) \<and>
           (\<forall>x \<in> set (captured m). x \<noteq> TargetingMoveLocation m \<longrightarrow> PieceAt b' x = Some Empty) \<and>
           PieceAt b' (TargetingMoveLocation m) =
             Some (if pc = WMan \<and> fst (TargetingMoveLocation m) = 0 then WKing
                   else if pc = BMan \<and> fst (TargetingMoveLocation m) = 7 then BKing
                   else pc)"
proof -
  obtain sr sc where s: "StartingMoveLocation m = (sr, sc)" by (cases "StartingMoveLocation m")
  obtain tr tc where t: "TargetingMoveLocation m = (tr, tc)" by (cases "TargetingMoveLocation m")
  have ins: "Inside sr sc" and it: "Inside tr tc"
    and ic: "\<forall>x \<in> set (captured m). Inside (fst x) (snd x)"
    using assms(2) by (simp_all add: applicable_def s t list_all_iff)
  have pc: "cell b sr sc = pc"
    using assms(3) by (simp add: s PieceAt_in[OF assms(1) ins])
  let ?b1 = "put b sr sc Empty"
  let ?b2 = "clear_all (captured m) ?b1"
  let ?b' = "put ?b2 tr tc (promoted pc tr)"
  have wf1: "wf_board ?b1" using assms(1) by (rule wf_board_put)
  have wf2: "wf_board ?b2" using wf1 by (rule wf_board_clear_all)
  have wf': "wf_board ?b'" using wf2 by (rule wf_board_put)
  have ap: "ApplyMove b m = Some ?b'"
    using ApplyMove_in[OF assms(1,2)] by (simp add: s t pc)
  have c1: "(sr, sc) \<noteq> (tr, tc) \<Longrightarrow> PieceAt ?b' (sr, sc) = Some Empty"
    using cell_put[OF wf2 it ins, of "promoted pc tr"] cell_clear_all[OF wf1 ic ins]
      cell_put[OF assms(1) ins ins, of Empty]
    by (auto simp: PieceAt_in[OF wf' ins])
  have c2: "\<And>x. x \<in> set (captured m) \<Longrightarrow> x \<noteq> (tr, tc) \<Longrightarrow> PieceAt ?b' x = Some Empty"
  proof -
    fix x assume x: "x \<in> set (captured m)" "x \<noteq> (tr, tc)"
    then have ix: "Inside (fst x) (snd x)" using ic by simp
    have "cell ?b' (fst x) (snd x) = Empty"
      using cell_put[OF wf2 it ix, of "promoted pc tr"] cell_clear_all[OF wf1 ic ix] x
      by (cases x) auto
    then show "PieceAt ?b' x = Some Empty"
      using PieceAt_in[OF wf' ix] by simp
  qed
  have c3: "PieceAt ?b' (tr, tc) = Some (promoted pc tr)"
    using cell_put[OF wf2 it it, of "promoted pc tr"] by (simp add: PieceAt_in[OF wf' it])
  show ?thesis
    using ap c1 c2 c3 by (auto simp: s t promoted_def)
qed

definition single_jump_move :: Move where
  "single_jump_move =
     \<lparr>StartingMoveLocation = (2, 1), TargetingMoveLocation = (4, 3),
      path = [(2, 1), (4, 3)], is_capture = True, captured = [(3, 2)]\<rparr>"

theorem ApplyMove_cells_witness:
  "wf_board single_jump_board \<and> applicable single_jump_move \<and>
   PieceAt single_jump_board (StartingMoveLocation single_jump_move) = Some BMan \<and>
   ApplyMove single_jump_board single_jump_move = Some (put empty_board 4 3 BMan) \<and>
   PieceAt (put empty_board 4 3 BMan) (StartingMoveLocation single_jump_move) = Some Empty \<and>
   PieceAt (put empty_board 4 3 BMan) (3, 2) = Some Empty \<and>
   PieceAt (put empty_board 4 3 BMan) (TargetingMoveLocation single_jump_move) = Some BMan"
proof -
  have h1: "wf_board single_jump_board" by code_simp
  have h2: "applicable single_jump_move" by code_simp
  have h3: "PieceAt single_jump_board (StartingMoveLocation single_jump_move) = Some BMan"
    by code_simp
  have h4: "ApplyMove single_jump_board single_jump_move = Some (put empty_board 4 3 BMan)"
    by code_simp
  have h5: "StartingMoveLocation single_jump_move \<noteq> TargetingMoveLocation single_jump_move"
    "(3, 2) \<in> set (captured single_jump_move)" "(3, 2) \<noteq> TargetingMoveLocation single_jump_move"
    "fst (TargetingMoveLocation single_jump_move) \<noteq> 7"
    by (simp_all add: single_jump_move_def)
  from ApplyMove_cells[OF h1 h2 h3] h4 h5 h1 h2 h3 show ?thesis
    by auto
qed

text \<open>The claim as the specification states it fails on a legal move: after the round trip
  of the White king, which \<^verbatim>\<open>AllLegalMoves\<close> returns, the start cell holds the king.\<close>

theorem ApplyMove_round_trip_start_not_empty:
  "round_trip_move \<in> set (fst (AllLegalMoves round_trip_board White)) \<and>
   PieceAt round_trip_board (StartingMoveLocation round_trip_move) = Some WKing \<and>
   ApplyMove round_trip_board round_trip_move = Some (put empty_board 4 1 WKing) \<and>
   PieceAt (put empty_board 4 1 WKing) (StartingMoveLocation round_trip_move) = Some WKing"
  by code_simp

subsection \<open>Reachable boards\<close>

definition same_colour :: "Coordinate \<Rightarrow> Coordinate \<Rightarrow> bool" where
  "same_colour x y \<longleftrightarrow> (fst x + snd x) mod 2 = (fst y + snd y) mod 2"

lemma caps_move_props:
  assumes "rc \<in> set all_cells" and "m \<in> set (cell_caps sd b rc)"
  shows "applicable m \<and> StartingMoveLocation m = rc \<and> own sd (cell b (fst rc) (snd rc)) \<and>
         same_colour (TargetingMoveLocation m) (StartingMoveLocation m)"
proof -
  have ins: "Inside (fst rc) (snd rc)" using assms(1) by (auto simp: set_all_cells)
  have own: "own sd (cell b (fst rc) (snd rc))"
    using assms(2) by (auto simp: cell_caps_def split: if_splits)
  let ?c0 = "pos_of (fst rc) (snd rc) (cell b (fst rc) (snd rc)) [(fst rc, snd rc)] [] b"
  have "m \<in> finals sd ?c0"
    using cell_caps_finals[OF all_cells_nonneg[OF assms(1)] assms(2)] by simp
  then obtain c' where m: "m = chain_move c'" and ch: "(jump_step sd)\<^sup>*\<^sup>* ?c0 c'"
    by (auto simp: finals_def)
  have inv: "chain_inv (fst rc, snd rc) c'"
    using chain_inv_steps[OF ch chain_inv_start[OF ins]] .
  show ?thesis
    using inv ins own
    by (auto simp: m chain_move_def chain_inv_def applicable_def same_colour_def list_all_iff)
qed

lemma diagonal_same_colour:
  assumes "diagonal d"
  shows "(r + fst d + (c + snd d)) mod 2 = (r + c) mod 2"
proof -
  have "fst d + snd d \<in> {-2, 0, 2}"
    using assms by (auto simp: diagonal_def abs_if split: if_splits)
  then show ?thesis by (elim insertE) (simp_all, presburger+)
qed

lemma quiet_move_props:
  assumes "rc \<in> set all_cells" and "m \<in> set (cell_quiets sd b rc)"
  shows "applicable m \<and> StartingMoveLocation m = rc \<and> own sd (cell b (fst rc) (snd rc)) \<and>
         same_colour (TargetingMoveLocation m) (StartingMoveLocation m)"
proof -
  from assms(2) obtain d where own: "own sd (cell b (fst rc) (snd rc))"
    and d: "d \<in> set (Directions (cell b (fst rc) (snd rc)))"
    and ins: "Inside (fst rc + fst d) (snd rc + snd d)"
    and m: "m = \<lparr>StartingMoveLocation = rc,
                  TargetingMoveLocation = (fst rc + fst d, snd rc + snd d),
                  path = [rc, (fst rc + fst d, snd rc + snd d)],
                  is_capture = False, captured = []\<rparr>"
    by (auto simp: cell_quiets_eq split: if_splits)
  have "Inside (fst rc) (snd rc)" using assms(1) by (auto simp: set_all_cells)
  then show ?thesis
    using own ins diagonal_same_colour[OF Directions_diagonal[OF d], of "fst rc" "snd rc"]
    by (simp add: m applicable_def same_colour_def)
qed

lemma legal_move_props:
  assumes "m \<in> set (fst (AllLegalMoves b sd))"
  shows "applicable m \<and>
         own sd (cell b (fst (StartingMoveLocation m)) (snd (StartingMoveLocation m))) \<and>
         same_colour (TargetingMoveLocation m) (StartingMoveLocation m)"
proof (cases "concat (map (cell_caps sd b) all_cells) = []")
  case True
  then have "m \<in> set (concat (map (cell_quiets sd b) all_cells))"
    using assms by (simp add: AllLegalMoves_eq)
  then obtain rc where "rc \<in> set all_cells" "m \<in> set (cell_quiets sd b rc)" by auto
  from quiet_move_props[OF this] show ?thesis by auto
next
  case False
  then have "m \<in> set (concat (map (cell_caps sd b) all_cells))"
    using assms by (simp add: AllLegalMoves_eq)
  then obtain rc where "rc \<in> set all_cells" "m \<in> set (cell_caps sd b rc)" by auto
  from caps_move_props[OF this] show ?thesis by auto
qed

lemma legal_move_applies:
  assumes "wf_board b" and "m \<in> set (fst (AllLegalMoves b sd))"
  shows "\<exists>b'. ApplyMove b m = Some b' \<and> wf_board b'"
proof -
  have ap: "applicable m" using legal_move_props[OF assms(2)] by simp
  show ?thesis
    using ApplyMove_in[OF assms(1) ap] ApplyMove_wf[OF assms(1) ap] by simp
qed

text \<open>Every light square, a cell whose row plus column is even, is empty.\<close>

definition light_squares_empty :: "grid \<Rightarrow> bool" where
  "light_squares_empty b \<longleftrightarrow>
     list_all (\<lambda>rc. (fst rc + snd rc) mod 2 = 0 \<longrightarrow> cell b (fst rc) (snd rc) = Empty) all_cells"

text \<open>The boards of a game: the initial board, with either side to move first, and from a
  board with side \<open>sd\<close> to move every board that applying a legal move of \<open>sd\<close> gives, with
  the other side to move.\<close>

definition other_side :: "side \<Rightarrow> side" where
  "other_side sd = (if sd = White then Black else White)"

inductive reachable :: "grid \<Rightarrow> side \<Rightarrow> bool" where
  initial: "reachable InitialBoard sd"
| move: "reachable b sd \<Longrightarrow> m \<in> set (fst (AllLegalMoves b sd)) \<Longrightarrow> ApplyMove b m = Some b'
          \<Longrightarrow> reachable b' (other_side sd)"

lemma InitialBoard_ok: "wf_board InitialBoard \<and> light_squares_empty InitialBoard"
  by code_simp

lemma own_not_Empty: "own sd pc \<Longrightarrow> pc \<noteq> Empty"
  by (auto simp: own_def split: if_splits)

lemma light_squares_step:
  assumes wf: "wf_board b" and le: "light_squares_empty b"
    and m: "m \<in> set (fst (AllLegalMoves b sd))" and ap: "ApplyMove b m = Some b'"
  shows "wf_board b' \<and> light_squares_empty b'"
proof -
  obtain sr sc where s: "StartingMoveLocation m = (sr, sc)" by (cases "StartingMoveLocation m")
  obtain tr tc where t: "TargetingMoveLocation m = (tr, tc)" by (cases "TargetingMoveLocation m")
  from legal_move_props[OF m]
  have app: "applicable m" and own: "own sd (cell b sr sc)"
    and col: "(tr + tc) mod 2 = (sr + sc) mod 2"
    by (simp_all add: s t same_colour_def)
  have ins: "Inside sr sc" and it: "Inside tr tc"
    and ic: "\<forall>x \<in> set (captured m). Inside (fst x) (snd x)"
    using app by (simp_all add: applicable_def s t list_all_iff)
  have light: "\<And>r c. Inside r c \<Longrightarrow> (r + c) mod 2 = 0 \<Longrightarrow> cell b r c = Empty"
    using le by (auto simp: light_squares_empty_def list_all_iff set_all_cells)
  have dark_start: "(sr + sc) mod 2 \<noteq> 0"
  proof
    assume "(sr + sc) mod 2 = 0"
    from light[OF ins this] own_not_Empty[OF own] show False by simp
  qed
  let ?b1 = "put b sr sc Empty"
  let ?b2 = "clear_all (captured m) ?b1"
  have wf1: "wf_board ?b1" using wf by (rule wf_board_put)
  have wf2: "wf_board ?b2" using wf1 by (rule wf_board_clear_all)
  have b': "b' = put ?b2 tr tc (promoted (cell b sr sc) tr)"
    using ap ApplyMove_in[OF wf app] by (simp add: s t)
  have wf': "wf_board b'" unfolding b' using wf2 by (rule wf_board_put)
  have "\<And>r c. Inside r c \<Longrightarrow> (r + c) mod 2 = 0 \<Longrightarrow> cell b' r c = Empty"
  proof -
    fix r c assume rc: "Inside r c" "(r + c) mod 2 = 0"
    then have ne: "\<not> (r = tr \<and> c = tc)" using col dark_start by auto
    have "cell b' r c = cell ?b2 r c"
      unfolding b' using cell_put[OF wf2 it rc(1)] ne by simp
    also have "\<dots> = Empty"
      using cell_clear_all[OF wf1 ic rc(1)] cell_put[OF wf ins rc(1), of Empty] light[OF rc]
      by auto
    finally show "cell b' r c = Empty" .
  qed
  then have "light_squares_empty b'"
    by (auto simp: light_squares_empty_def list_all_iff set_all_cells)
  with wf' show ?thesis by simp
qed

lemma reachable_invariant: "reachable b sd \<Longrightarrow> wf_board b \<and> light_squares_empty b"
proof (induction rule: reachable.induct)
  case (initial sd)
  show ?case by (rule InitialBoard_ok)
next
  case (move b sd m b')
  then show ?case using light_squares_step by blast
qed

text \<open>
  Claim C9. In every board reachable from the initial board by applying legal moves of
  the side to move, every light square is empty.
\<close>

theorem reachable_light_squares_empty:
  assumes "reachable b sd"
  shows "light_squares_empty b"
  using reachable_invariant[OF assms] by simp

definition opening_move :: Move where
  "opening_move =
     \<lparr>StartingMoveLocation = (5, 0), TargetingMoveLocation = (4, 1),
      path = [(5, 0), (4, 1)], is_capture = False, captured = []\<rparr>"

definition after_opening :: grid where
  "after_opening = put (put InitialBoard 5 0 Empty) 4 1 WMan"

theorem reachable_light_squares_empty_witness:
  "reachable after_opening Black \<and> light_squares_empty after_opening"
proof -
  have l: "opening_move \<in> set (fst (AllLegalMoves InitialBoard White))" by code_simp
  have a: "ApplyMove InitialBoard opening_move = Some after_opening" by code_simp
  have r: "reachable after_opening (other_side White)"
    using reachable.move[OF reachable.initial l a] .
  then have r': "reachable after_opening Black" by (simp add: other_side_def)
  show ?thesis
    using r' reachable_light_squares_empty[OF r'] by simp
qed

section \<open>Properties of the search engine\<close>

subsection \<open>Moves, successors and the frame of a search step\<close>

definition legal :: "grid \<Rightarrow> side \<Rightarrow> Move list" where
  "legal b sd = fst (AllLegalMoves b sd)"

definition terminal :: "grid \<Rightarrow> bool" where
  "terminal b = fst (IsTerminal b)"

text \<open>The board after cloning a board and applying a move to the clone.\<close>

definition after :: "grid \<Rightarrow> Move \<Rightarrow> grid" where
  "after b m = (case ApplyMove (Clone b) m of Some b' \<Rightarrow> b' | None \<Rightarrow> b)"

lemma AllLegalMoves_pair: "AllLegalMoves b sd = (legal b sd, b)"
  using AllLegalMoves_board[of b sd] by (cases "AllLegalMoves b sd") (simp add: legal_def)

lemma IsTerminal_pair: "IsTerminal b = (terminal b, b)"
  unfolding terminal_def IsTerminal_def
  by (auto simp: AllLegalMoves_pair)

lemma terminal_iff:
  "terminal b \<longleftrightarrow> \<not> HasPieces b White \<or> \<not> HasPieces b Black \<or> legal b White = [] \<or> legal b Black = []"
  unfolding terminal_def IsTerminal_def
  by (auto simp: AllLegalMoves_pair)

lemma legal_applicable: "m \<in> set (legal b sd) \<Longrightarrow> applicable m"
  using legal_move_props[of m b sd] by (simp add: legal_def)

lemma ApplyMove_after:
  assumes "wf_board b" and "applicable m"
  shows "ApplyMove b m = Some (after b m)" and "wf_board (after b m)"
proof -
  from ApplyMove_in[OF assms] obtain b' where b': "ApplyMove b m = Some b'" by simp
  then show "ApplyMove b m = Some (after b m)" by (simp add: after_def)
  from ApplyMove_wf[OF assms b'] b' show "wf_board (after b m)" by (simp add: after_def)
qed

text \<open>What no operation of the search changes in the world: the mode and the two flags of
  the tool box, and the field \<^verbatim>\<open>MaxFringeSize\<close> of its analytics; the clock only advances.\<close>

definition keeps :: "world \<Rightarrow> world \<Rightarrow> bool" where
  "keeps w w' \<longleftrightarrow>
     mode (self w') = mode (self w) \<and> UseOrdering (self w') = UseOrdering (self w) \<and>
     UseAlphaBeta (self w') = UseAlphaBeta (self w) \<and>
     MaxFringeSize (Analytics (self w')) = MaxFringeSize (Analytics (self w)) \<and>
     ticks w \<le> ticks w'"

lemma keeps_refl [simp]: "keeps w w"
  by (simp add: keeps_def)

lemma keeps_trans: "keeps w w' \<Longrightarrow> keeps w' w'' \<Longrightarrow> keeps w w''"
  by (auto simp: keeps_def)

lemma keeps_tick: "keeps w (w\<lparr>ticks := Suc (ticks w)\<rparr>)"
  by (simp add: keeps_def)

lemma keeps_bump:
  assumes "\<And>x. MaxFringeSize (f x) = MaxFringeSize x"
  shows "keeps w (bump f w)"
  using assms by (simp add: keeps_def bump_def)

lemma keeps_bump_simps [simp]:
  "keeps w (bump (NodesExpanded_update f) w)"
  "keeps w (bump (AlphaBetaCuts_update f) w)"
  "keeps w (bump (OrderingComparisons_update f) w)"
  "keeps w (bump (OrderingGains_update f) w)"
  "keeps w (bump (ElapsedMs_update f) w)"
  by (simp_all add: keeps_bump)

lemma ticks_bump [simp]: "ticks (bump f w) = ticks w"
  by (simp add: bump_def)

lemma flags_bump [simp]:
  "UseAlphaBeta (self (bump f w)) = UseAlphaBeta (self w)"
  "UseOrdering (self (bump f w)) = UseOrdering (self w)"
  by (simp_all add: bump_def)

definition scored :: "grid \<Rightarrow> side \<Rightarrow> Move \<Rightarrow> int \<times> Move" where
  "scored b sd m =
     (if sd = White then - HeuristicScore (after b m) else HeuristicScore (after b m), m)"

text \<open>The order in which a node tries its moves.\<close>

definition ordered_moves :: "bool \<Rightarrow> grid \<Rightarrow> side \<Rightarrow> Move list \<Rightarrow> Move list" where
  "ordered_moves ord b sd ms =
     (if \<not> ord then ms else map snd (sort_key (\<lambda>x. - fst x) (map (scored b sd) ms)))"

lemma score_moves_eq:
  assumes "wf_board b" and "\<forall>m \<in> set ms. applicable m"
  shows "score_moves b sd ms = Some (map (scored b sd) ms)"
  using assms(2)
proof (induction ms)
  case Nil
  then show ?case by simp
next
  case (Cons m ms)
  then show ?case
    using ApplyMove_after(1)[OF assms(1), of m] by (simp add: scored_def)
qed

lemma set_ordered_moves [simp]: "set (ordered_moves ord b sd ms) = set ms"
proof -
  have "snd ` scored b sd ` set ms = set ms"
    by (force simp: scored_def image_iff)
  then show ?thesis by (simp add: ordered_moves_def)
qed

lemma ordered_moves_Nil_iff [simp]: "ordered_moves ord b sd ms = [] \<longleftrightarrow> ms = []"
  using set_ordered_moves[of ord b sd ms] by (metis set_empty)

lemma OrderMoves_eq:
  assumes "wf_board b" and "\<forall>m \<in> set ms. applicable m"
  shows "\<exists>w'. OrderMoves b sd ms w = Some (ordered_moves (UseOrdering (self w)) b sd ms, w') \<and>
              keeps w w' \<and> ticks w' = ticks w"
proof (cases "UseOrdering (self w)")
  case False
  then show ?thesis by (simp add: OrderMoves_def ordered_moves_def)
next
  case True
  then show ?thesis
    by (simp add: OrderMoves_def ordered_moves_def score_moves_eq[OF assms])
qed

declare max_value.simps [simp del] min_value.simps [simp del]

lemma max_value_unfold:
  "max_value clk deadline bd d a be w =
     (if clk (ticks w) > deadline then Some (HeuristicScore bd, w\<lparr>ticks := Suc (ticks w)\<rparr>)
      else if d = 0 \<or> terminal bd \<or> legal bd Black = [] then
        Some (HeuristicScore bd, bump (NodesExpanded_update (\<lambda>n. n + 1)) (w\<lparr>ticks := Suc (ticks w)\<rparr>))
      else
        do { (ordered, w3) \<leftarrow> OrderMoves bd Black (legal bd Black)
                               (bump (NodesExpanded_update (\<lambda>n. n + 1)) (w\<lparr>ticks := Suc (ticks w)\<rparr>));
             max_loop clk deadline bd (d - 1) ordered (- big) a be w3 })"
  by (simp add: max_value.simps time_time_def Let_def IsTerminal_pair AllLegalMoves_pair)

lemma min_value_unfold:
  "min_value clk deadline bd d a be w =
     (if clk (ticks w) > deadline then Some (HeuristicScore bd, w\<lparr>ticks := Suc (ticks w)\<rparr>)
      else if d = 0 \<or> terminal bd \<or> legal bd White = [] then
        Some (HeuristicScore bd, bump (NodesExpanded_update (\<lambda>n. n + 1)) (w\<lparr>ticks := Suc (ticks w)\<rparr>))
      else
        do { (ordered, w3) \<leftarrow> OrderMoves bd White (legal bd White)
                               (bump (NodesExpanded_update (\<lambda>n. n + 1)) (w\<lparr>ticks := Suc (ticks w)\<rparr>));
             min_loop clk deadline bd (d - 1) ordered big a be w3 })"
  by (simp add: min_value.simps time_time_def Let_def IsTerminal_pair AllLegalMoves_pair)

subsection \<open>The search returns\<close>

lemma max_loop_total:
  assumes V: "\<And>bd a be w. wf_board bd \<Longrightarrow>
                \<exists>v w'. min_value clk dl bd d a be w = Some (v, w') \<and> keeps w w'"
    and "wf_board bd" and "\<forall>m \<in> set ms. applicable m"
  shows "\<exists>v w'. max_loop clk dl bd d ms best a be w = Some (v, w') \<and> keeps w w'"
  using assms(3)
proof (induction ms arbitrary: best a w)
  case Nil
  then show ?case by simp
next
  case (Cons m ms)
  have ap: "ApplyMove bd m = Some (after bd m)" and wf': "wf_board (after bd m)"
    using ApplyMove_after[OF assms(2), of m] Cons.prems by simp_all
  from V[OF wf', of a be w] obtain v w1
    where v: "min_value clk dl (after bd m) d a be w = Some (v, w1)" and k1: "keeps w w1"
    by blast
  show ?case
  proof (cases "UseAlphaBeta (self w1) \<and> max a (max best v) \<ge> be")
    case True
    have "keeps w (bump (AlphaBetaCuts_update (\<lambda>n. n + 1)) w1)"
      using keeps_trans[OF k1] by simp
    then show ?thesis
      using True by (simp add: ap v Let_def)
  next
    case False
    from Cons.IH[of "max best v" "max a (max best v)" w1] Cons.prems
    obtain v' w' where "max_loop clk dl bd d ms (max best v) (max a (max best v)) be w1 = Some (v', w')"
      and "keeps w1 w'" by auto
    then show ?thesis
      using False keeps_trans[OF k1] by (auto simp: ap v Let_def)
  qed
qed

lemma min_loop_total:
  assumes V: "\<And>bd a be w. wf_board bd \<Longrightarrow>
                \<exists>v w'. max_value clk dl bd d a be w = Some (v, w') \<and> keeps w w'"
    and "wf_board bd" and "\<forall>m \<in> set ms. applicable m"
  shows "\<exists>v w'. min_loop clk dl bd d ms best a be w = Some (v, w') \<and> keeps w w'"
  using assms(3)
proof (induction ms arbitrary: best be w)
  case Nil
  then show ?case by simp
next
  case (Cons m ms)
  have ap: "ApplyMove bd m = Some (after bd m)" and wf': "wf_board (after bd m)"
    using ApplyMove_after[OF assms(2), of m] Cons.prems by simp_all
  from V[OF wf', of a be w] obtain v w1
    where v: "max_value clk dl (after bd m) d a be w = Some (v, w1)" and k1: "keeps w w1"
    by blast
  show ?case
  proof (cases "UseAlphaBeta (self w1) \<and> a \<ge> min be (min best v)")
    case True
    have "keeps w (bump (AlphaBetaCuts_update (\<lambda>n. n + 1)) w1)"
      using keeps_trans[OF k1] by simp
    then show ?thesis
      using True by (simp add: ap v Let_def)
  next
    case False
    from Cons.IH[of "min best v" "min be (min best v)" w1] Cons.prems
    obtain v' w' where "min_loop clk dl bd d ms (min best v) a (min be (min best v)) w1 = Some (v', w')"
      and "keeps w1 w'" by auto
    then show ?thesis
      using False keeps_trans[OF k1] by (auto simp: ap v Let_def)
  qed
qed

lemma value_total_step:
  assumes "wf_board bd"
    and L: "\<And>ms w3. \<forall>m \<in> set ms. applicable m \<Longrightarrow>
               \<exists>v w'. loop ms w3 = Some (v, w') \<and> keeps w3 w'"
  shows "\<exists>v w'. (if clk (ticks w) > dl then Some (HeuristicScore bd, w\<lparr>ticks := Suc (ticks w)\<rparr>)
      else if stop then
        Some (HeuristicScore bd, bump (NodesExpanded_update (\<lambda>n. n + 1)) (w\<lparr>ticks := Suc (ticks w)\<rparr>))
      else
        do { (ordered, w3) \<leftarrow> OrderMoves bd sd (legal bd sd)
                               (bump (NodesExpanded_update (\<lambda>n. n + 1)) (w\<lparr>ticks := Suc (ticks w)\<rparr>));
             loop ordered w3 }) = Some (v, w') \<and> keeps w w'"
proof -
  let ?w1 = "w\<lparr>ticks := Suc (ticks w)\<rparr>"
  let ?w2 = "bump (NodesExpanded_update (\<lambda>n. n + 1)) ?w1"
  have k1: "keeps w ?w1" by (rule keeps_tick)
  have k2: "keeps w ?w2" using keeps_trans[OF k1] by simp
  have app: "\<forall>m \<in> set (legal bd sd). applicable m" using legal_applicable by blast
  from OrderMoves_eq[OF assms(1) app, of sd ?w2] obtain w3
    where om: "OrderMoves bd sd (legal bd sd) ?w2 =
                 Some (ordered_moves (UseOrdering (self w)) bd sd (legal bd sd), w3)"
      and k3: "keeps ?w2 w3" by auto
  have "\<forall>m \<in> set (ordered_moves (UseOrdering (self w)) bd sd (legal bd sd)). applicable m"
    using app by simp
  from L[OF this, of w3] obtain v w' where
    l: "loop (ordered_moves (UseOrdering (self w)) bd sd (legal bd sd)) w3 = Some (v, w')"
    and k4: "keeps w3 w'" by blast
  have k5: "keeps w w'" using keeps_trans[OF keeps_trans[OF k2 k3] k4] .
  show ?thesis
    using k1 k2 k5 om l by auto
qed

lemma values_total:
  "wf_board bd \<Longrightarrow>
     (\<exists>v w'. max_value clk dl bd d a be w = Some (v, w') \<and> keeps w w') \<and>
     (\<exists>v w'. min_value clk dl bd d a be w = Some (v, w') \<and> keeps w w')"
proof (induction d arbitrary: bd a be w)
  case 0
  have k1: "keeps w (w\<lparr>ticks := Suc (ticks w)\<rparr>)" by (rule keeps_tick)
  have k2: "keeps w (bump (NodesExpanded_update (\<lambda>n. n + 1)) (w\<lparr>ticks := Suc (ticks w)\<rparr>))"
    using keeps_trans[OF k1] by simp
  show ?case
    using k1 k2 by (simp add: max_value_unfold min_value_unfold)
next
  case (Suc d)
  have mx: "\<And>bd a be w. wf_board bd \<Longrightarrow>
                \<exists>v w'. max_value clk dl bd d a be w = Some (v, w') \<and> keeps w w'"
    and mn: "\<And>bd a be w. wf_board bd \<Longrightarrow>
                \<exists>v w'. min_value clk dl bd d a be w = Some (v, w') \<and> keeps w w'"
    using Suc.IH by blast+
  have e1: "max_value clk dl bd (Suc d) a be w =
     (if clk (ticks w) > dl then Some (HeuristicScore bd, w\<lparr>ticks := Suc (ticks w)\<rparr>)
      else if terminal bd \<or> legal bd Black = [] then
        Some (HeuristicScore bd, bump (NodesExpanded_update (\<lambda>n. n + 1)) (w\<lparr>ticks := Suc (ticks w)\<rparr>))
      else
        do { (ordered, w3) \<leftarrow> OrderMoves bd Black (legal bd Black)
                               (bump (NodesExpanded_update (\<lambda>n. n + 1)) (w\<lparr>ticks := Suc (ticks w)\<rparr>));
             max_loop clk dl bd d ordered (- big) a be w3 })"
    by (simp add: max_value_unfold)
  have e2: "min_value clk dl bd (Suc d) a be w =
     (if clk (ticks w) > dl then Some (HeuristicScore bd, w\<lparr>ticks := Suc (ticks w)\<rparr>)
      else if terminal bd \<or> legal bd White = [] then
        Some (HeuristicScore bd, bump (NodesExpanded_update (\<lambda>n. n + 1)) (w\<lparr>ticks := Suc (ticks w)\<rparr>))
      else
        do { (ordered, w3) \<leftarrow> OrderMoves bd White (legal bd White)
                               (bump (NodesExpanded_update (\<lambda>n. n + 1)) (w\<lparr>ticks := Suc (ticks w)\<rparr>));
             min_loop clk dl bd d ordered big a be w3 })"
    by (simp add: min_value_unfold)
  have "\<exists>v w'. max_value clk dl bd (Suc d) a be w = Some (v, w') \<and> keeps w w'"
    unfolding e1 by (rule value_total_step[OF Suc.prems max_loop_total[OF mn Suc.prems]])
  moreover have "\<exists>v w'. min_value clk dl bd (Suc d) a be w = Some (v, w') \<and> keeps w w'"
    unfolding e2 by (rule value_total_step[OF Suc.prems min_loop_total[OF mx Suc.prems]])
  ultimately show ?case by blast
qed

lemma root_loop_total:
  assumes "wf_board b" and "\<forall>m \<in> set ms. applicable m"
  shows "\<exists>r w'. root_loop clk dl b maximizing d idx ms best_move best_score alpha beta w = Some (r, w')
           \<and> keeps w w'"
  using assms(2)
proof (induction ms arbitrary: idx best_move best_score alpha beta w)
  case Nil
  then show ?case by simp
next
  case (Cons m ms)
  have ap: "ApplyMove b m = Some (after b m)" and wf': "wf_board (after b m)"
    using ApplyMove_after[OF assms(1), of m] Cons.prems by simp_all
  have rest: "\<forall>m \<in> set ms. applicable m" using Cons.prems by simp
  show ?case
  proof (cases maximizing)
    case True
    from values_total[OF wf', of clk dl d alpha beta w] obtain score w1
      where v: "min_value clk dl (after b m) d alpha beta w = Some (score, w1)"
        and k1: "keeps w w1" by blast
    let ?w2 = "if score > best_score \<and> idx > 0
               then bump (OrderingGains_update (\<lambda>n. n + 1)) w1 else w1"
    let ?w3 = "?w2\<lparr>ticks := Suc (ticks ?w2)\<rparr>"
    have k2: "keeps w ?w2" using keeps_trans[OF k1] by simp
    have k3: "keeps w ?w3" using keeps_trans[OF k2 keeps_tick] .
    from Cons.IH[OF rest, of "Suc idx" "if score > best_score then Some m else best_move"
        "if score > best_score then score else best_score"
        "max alpha (if score > best_score then score else best_score)" beta ?w3]
    obtain r w' where "root_loop clk dl b maximizing d (Suc idx) ms
          (if score > best_score then Some m else best_move)
          (if score > best_score then score else best_score)
          (max alpha (if score > best_score then score else best_score)) beta ?w3 = Some (r, w')"
      and "keeps ?w3 w'" by blast
    then show ?thesis
      using True k3 keeps_trans[OF k3]
      by (auto simp: ap v Let_def time_time_def)
  next
    case False
    from values_total[OF wf', of clk dl d alpha beta w] obtain score w1
      where v: "max_value clk dl (after b m) d alpha beta w = Some (score, w1)"
        and k1: "keeps w w1" by blast
    let ?w2 = "if score < best_score \<and> idx > 0
               then bump (OrderingGains_update (\<lambda>n. n + 1)) w1 else w1"
    let ?w3 = "?w2\<lparr>ticks := Suc (ticks ?w2)\<rparr>"
    have k2: "keeps w ?w2" using keeps_trans[OF k1] by simp
    have k3: "keeps w ?w3" using keeps_trans[OF k2 keeps_tick] .
    from Cons.IH[OF rest, of "Suc idx" "if score < best_score then Some m else best_move"
        "if score < best_score then score else best_score" alpha
        "min beta (if score < best_score then score else best_score)" ?w3]
    obtain r w' where "root_loop clk dl b maximizing d (Suc idx) ms
          (if score < best_score then Some m else best_move)
          (if score < best_score then score else best_score) alpha
          (min beta (if score < best_score then score else best_score)) ?w3 = Some (r, w')"
      and "keeps ?w3 w'" by blast
    then show ?thesis
      using False k3 keeps_trans[OF k3]
      by (auto simp: ap v Let_def time_time_def)
  qed
qed

lemma SearchDepth_total:
  assumes "wf_board b"
  shows "\<exists>r w'. SearchDepth clk b sd depth dl w = Some (r, b, w') \<and> keeps w w'"
proof (cases "legal b sd = []")
  case True
  have "keeps w (w\<lparr>ticks := Suc (ticks w)\<rparr>)" by (rule keeps_tick)
  then show ?thesis
    using True by (simp add: SearchDepth_def time_time_def AllLegalMoves_pair)
next
  case False
  let ?w0 = "w\<lparr>ticks := Suc (ticks w)\<rparr>"
  have k0: "keeps w ?w0" by (rule keeps_tick)
  have app: "\<forall>m \<in> set (legal b sd). applicable m" using legal_applicable by blast
  let ?oms = "ordered_moves (UseOrdering (self w)) b sd (legal b sd)"
  from OrderMoves_eq[OF assms app, of sd ?w0] obtain w1
    where om: "OrderMoves b sd (legal b sd) ?w0 = Some (?oms, w1)"
      and k1: "keeps ?w0 w1" by auto
  have app': "\<forall>m \<in> set ?oms. applicable m"
    using app by simp
  from root_loop_total[OF assms app', of clk dl "sd = Black" "depth - 1" 0 None
      "if sd = Black then - big else big" "- big" big w1]
  obtain r w2 where rl: "root_loop clk dl b (sd = Black) (depth - 1) 0 ?oms None
        (if sd = Black then - big else big) (- big) big w1 = Some (r, w2)"
    and k2: "keeps w1 w2" by blast
  obtain bm bs where r: "r = (bm, bs)" by (cases r)
  let ?w3 = "w2\<lparr>ticks := Suc (ticks w2)\<rparr>"
  let ?w4 = "bump (ElapsedMs_update (\<lambda>n. n + py_int ((clk (ticks w2) - clk (ticks w)) * 1000))) ?w3"
  have k3: "keeps w ?w3"
    using keeps_trans[OF keeps_trans[OF keeps_trans[OF k0 k1] k2] keeps_tick] .
  have k4: "keeps w ?w4"
    using keeps_trans[OF k3] by simp
  have "SearchDepth clk b sd depth dl w = Some ((bm, Some bs), b, ?w4)"
    unfolding SearchDepth_def time_time_def AllLegalMoves_pair Let_def
    using False om rl r by simp
  then show ?thesis using k4 by blast
qed

lemma deepen_total:
  assumes "wf_board b"
  shows "\<exists>r w'. deepen clk sd dl depths b best_move best_score w = Some (r, b, w') \<and> keeps w w'"
proof (induction depths arbitrary: best_move best_score w)
  case Nil
  then show ?case by simp
next
  case (Cons depth depths)
  from SearchDepth_total[OF assms, of clk sd depth dl w] obtain r w1
    where sd: "SearchDepth clk b sd depth dl w = Some (r, b, w1)" and k1: "keeps w w1" by blast
  obtain move score where r: "r = (move, score)" by (cases r)
  let ?w2 = "w1\<lparr>ticks := Suc (ticks w1)\<rparr>"
  have k2: "keeps w ?w2" using keeps_trans[OF k1 keeps_tick] .
  from Cons.IH[of move score ?w2] obtain r1 w1' where
    d1: "deepen clk sd dl depths b move score ?w2 = Some (r1, b, w1')" and kk1: "keeps ?w2 w1'"
    by blast
  from Cons.IH[of best_move best_score ?w2] obtain r2 w2' where
    d2: "deepen clk sd dl depths b best_move best_score ?w2 = Some (r2, b, w2')" and kk2: "keeps ?w2 w2'"
    by blast
  show ?case
    using k2 keeps_trans[OF k2 kk1] keeps_trans[OF k2 kk2] d1 d2
    by (auto simp: sd r time_time_def)
qed

lemma ChooseMove_total:
  assumes "wf_board b"
  shows "\<exists>mv w'. ChooseMove clk b sd SecondsBudget PlyLimit w = Some (mv, b, w') \<and>
           MaxFringeSize (Analytics (self w')) = 0"
proof -
  define depths where "depths = [1..<nat (max 1 PlyLimit) + 1]"
  let ?w0 = "w\<lparr>self := (self w)\<lparr>Analytics := MoveAnalytics_init\<rparr>\<rparr>"
  let ?w1 = "?w0\<lparr>ticks := Suc (ticks ?w0)\<rparr>"
  let ?dl = "clk (ticks ?w0) + real_of_int (max 1 SecondsBudget)"
  have z: "MaxFringeSize (Analytics (self ?w1)) = 0"
    by (simp add: MoveAnalytics_init_def)
  from deepen_total[OF assms, of clk sd ?dl depths None None ?w1]
  obtain r w2 where d: "deepen clk sd ?dl depths b None None ?w1 = Some (r, b, w2)"
    and k: "keeps ?w1 w2" by blast
  have z2: "MaxFringeSize (Analytics (self w2)) = 0"
    using k z by (simp add: keeps_def)
  obtain best_move best_score where r: "r = (best_move, best_score)" by (cases r)
  show ?thesis
    unfolding ChooseMove_def depths_def[symmetric]
    using z2 d r by (simp add: time_time_def Let_def AllLegalMoves_pair)
qed

subsection \<open>The search without the clock\<close>

lemma value_keeps:
  assumes "wf_board bd"
  shows "max_value clk dl bd d a be w = Some (v, w') \<Longrightarrow> keeps w w'"
    and "min_value clk dl bd d a be w = Some (v, w') \<Longrightarrow> keeps w w'"
  using values_total[OF assms, of clk dl d a be w] by auto

lemma loop_keeps:
  assumes "wf_board bd" and "\<forall>m \<in> set ms. applicable m"
  shows "max_loop clk dl bd d ms best a be w = Some (v, w') \<Longrightarrow> keeps w w'"
    and "min_loop clk dl bd d ms best a be w = Some (v, w') \<Longrightarrow> keeps w w'"
proof -
  have mn: "\<And>bd a be w. wf_board bd \<Longrightarrow>
                \<exists>v w'. min_value clk dl bd d a be w = Some (v, w') \<and> keeps w w'"
    and mx: "\<And>bd a be w. wf_board bd \<Longrightarrow>
                \<exists>v w'. max_value clk dl bd d a be w = Some (v, w') \<and> keeps w w'"
    using values_total by blast+
  show "max_loop clk dl bd d ms best a be w = Some (v, w') \<Longrightarrow> keeps w w'"
    using max_loop_total[OF mn assms, of best a be w] by auto
  show "min_loop clk dl bd d ms best a be w = Some (v, w') \<Longrightarrow> keeps w w'"
    using min_loop_total[OF mx assms, of best a be w] by auto
qed

text \<open>
  The value functions without the clock and the analytics: what \<^verbatim>\<open>max_value\<close> and
  \<^verbatim>\<open>min_value\<close> compute when no deadline check fires. The flags are \<^verbatim>\<open>UseAlphaBeta\<close> and
  \<^verbatim>\<open>UseOrdering\<close>.
\<close>

function pv_max :: "bool \<Rightarrow> bool \<Rightarrow> grid \<Rightarrow> nat \<Rightarrow> int \<Rightarrow> int \<Rightarrow> int"
  and pv_max_loop :: "bool \<Rightarrow> bool \<Rightarrow> grid \<Rightarrow> nat \<Rightarrow> Move list \<Rightarrow> int \<Rightarrow> int \<Rightarrow> int \<Rightarrow> int"
  and pv_min :: "bool \<Rightarrow> bool \<Rightarrow> grid \<Rightarrow> nat \<Rightarrow> int \<Rightarrow> int \<Rightarrow> int"
  and pv_min_loop :: "bool \<Rightarrow> bool \<Rightarrow> grid \<Rightarrow> nat \<Rightarrow> Move list \<Rightarrow> int \<Rightarrow> int \<Rightarrow> int \<Rightarrow> int"
where
  "pv_max ab ord bd d a be =
     (if d = 0 \<or> terminal bd \<or> legal bd Black = [] then HeuristicScore bd
      else pv_max_loop ab ord bd (d - 1) (ordered_moves ord bd Black (legal bd Black)) (- big) a be)"
| "pv_max_loop ab ord bd d [] best a be = best"
| "pv_max_loop ab ord bd d (m # ms) best a be =
     (let val = pv_min ab ord (after bd m) d a be; best' = max best val; a' = max a best'
      in if ab \<and> a' \<ge> be then best' else pv_max_loop ab ord bd d ms best' a' be)"
| "pv_min ab ord bd d a be =
     (if d = 0 \<or> terminal bd \<or> legal bd White = [] then HeuristicScore bd
      else pv_min_loop ab ord bd (d - 1) (ordered_moves ord bd White (legal bd White)) big a be)"
| "pv_min_loop ab ord bd d [] best a be = best"
| "pv_min_loop ab ord bd d (m # ms) best a be =
     (let val = pv_max ab ord (after bd m) d a be; best' = min best val; be' = min be best'
      in if ab \<and> a \<ge> be' then best' else pv_min_loop ab ord bd d ms best' a be')"
  by pat_completeness auto
termination
  by (relation "inv_image (less_than <*lex*> less_than)
        (\<lambda>x. case x of
           Inl (Inl (ab, ord, bd, d, a, be)) \<Rightarrow> (d, 0)
         | Inl (Inr (ab, ord, bd, d, ms, best, a, be)) \<Rightarrow> (d, Suc (length ms))
         | Inr (Inl (ab, ord, bd, d, a, be)) \<Rightarrow> (d, 0)
         | Inr (Inr (ab, ord, bd, d, ms, best, a, be)) \<Rightarrow> (d, Suc (length ms)))")
     auto

declare pv_max.simps [simp del] pv_min.simps [simp del]

text \<open>No clock reading before tick \<open>n\<close> is past the deadline.\<close>

definition calm :: "(nat \<Rightarrow> real) \<Rightarrow> real \<Rightarrow> nat \<Rightarrow> bool" where
  "calm clk dl n \<longleftrightarrow> (\<forall>j < n. clk j \<le> dl)"

lemma calm_mono: "calm clk dl n \<Longrightarrow> k \<le> n \<Longrightarrow> calm clk dl k"
  by (simp add: calm_def)

lemma calm_keeps: "calm clk dl (ticks w') \<Longrightarrow> keeps w w' \<Longrightarrow> calm clk dl (ticks w)"
  by (simp add: calm_def keeps_def)

lemma max_loop_pure:
  assumes V: "\<And>bd a be w v w'. wf_board bd \<Longrightarrow> min_value clk dl bd d a be w = Some (v, w') \<Longrightarrow>
                calm clk dl (ticks w') \<Longrightarrow>
                v = pv_min (UseAlphaBeta (self w)) (UseOrdering (self w)) bd d a be"
    and wf: "wf_board bd"
  shows "\<forall>m \<in> set ms. applicable m \<Longrightarrow> max_loop clk dl bd d ms best a be w = Some (v, w') \<Longrightarrow>
         calm clk dl (ticks w') \<Longrightarrow>
         v = pv_max_loop (UseAlphaBeta (self w)) (UseOrdering (self w)) bd d ms best a be"
proof (induction ms arbitrary: best a w)
  case Nil
  then show ?case by simp
next
  case (Cons m ms)
  have ap: "ApplyMove bd m = Some (after bd m)" and wf': "wf_board (after bd m)"
    using ApplyMove_after[OF wf, of m] Cons.prems(1) by simp_all
  have rest: "\<forall>m \<in> set ms. applicable m" using Cons.prems(1) by simp
  from values_total[OF wf', of clk dl d a be w] obtain val w1
    where c: "min_value clk dl (after bd m) d a be w = Some (val, w1)" and k1: "keeps w w1"
    by blast
  have fl: "UseAlphaBeta (self w1) = UseAlphaBeta (self w)"
           "UseOrdering (self w1) = UseOrdering (self w)"
    using k1 by (simp_all add: keeps_def)
  show ?case
  proof (cases "UseAlphaBeta (self w) \<and> max a (max best val) \<ge> be")
    case True
    then have "v = max best val" and "w' = bump (AlphaBetaCuts_update (\<lambda>n. n + 1)) w1"
      using Cons.prems(2) by (simp_all add: ap c Let_def fl)
    then have "calm clk dl (ticks w1)" using Cons.prems(3) by simp
    from V[OF wf' c this] have "val = pv_min (UseAlphaBeta (self w)) (UseOrdering (self w))
        (after bd m) d a be" .
    then show ?thesis
      using True \<open>v = max best val\<close> by (simp add: Let_def)
  next
    case False
    then have r: "max_loop clk dl bd d ms (max best val) (max a (max best val)) be w1 = Some (v, w')"
      using Cons.prems(2) by (auto simp: ap c Let_def fl)
    have "keeps w1 w'" using loop_keeps(1)[OF wf rest r] .
    then have "calm clk dl (ticks w1)" using Cons.prems(3) calm_keeps by blast
    from V[OF wf' c this] have val: "val = pv_min (UseAlphaBeta (self w)) (UseOrdering (self w))
        (after bd m) d a be" .
    from Cons.IH[OF rest r Cons.prems(3)]
    have "v = pv_max_loop (UseAlphaBeta (self w)) (UseOrdering (self w)) bd d ms (max best val)
               (max a (max best val)) be"
      by (simp add: fl)
    then show ?thesis
      using False val by (auto simp: Let_def)
  qed
qed

lemma min_loop_pure:
  assumes V: "\<And>bd a be w v w'. wf_board bd \<Longrightarrow> max_value clk dl bd d a be w = Some (v, w') \<Longrightarrow>
                calm clk dl (ticks w') \<Longrightarrow>
                v = pv_max (UseAlphaBeta (self w)) (UseOrdering (self w)) bd d a be"
    and wf: "wf_board bd"
  shows "\<forall>m \<in> set ms. applicable m \<Longrightarrow> min_loop clk dl bd d ms best a be w = Some (v, w') \<Longrightarrow>
         calm clk dl (ticks w') \<Longrightarrow>
         v = pv_min_loop (UseAlphaBeta (self w)) (UseOrdering (self w)) bd d ms best a be"
proof (induction ms arbitrary: best be w)
  case Nil
  then show ?case by simp
next
  case (Cons m ms)
  have ap: "ApplyMove bd m = Some (after bd m)" and wf': "wf_board (after bd m)"
    using ApplyMove_after[OF wf, of m] Cons.prems(1) by simp_all
  have rest: "\<forall>m \<in> set ms. applicable m" using Cons.prems(1) by simp
  from values_total[OF wf', of clk dl d a be w] obtain val w1
    where c: "max_value clk dl (after bd m) d a be w = Some (val, w1)" and k1: "keeps w w1"
    by blast
  have fl: "UseAlphaBeta (self w1) = UseAlphaBeta (self w)"
           "UseOrdering (self w1) = UseOrdering (self w)"
    using k1 by (simp_all add: keeps_def)
  show ?case
  proof (cases "UseAlphaBeta (self w) \<and> a \<ge> min be (min best val)")
    case True
    then have "v = min best val" and "w' = bump (AlphaBetaCuts_update (\<lambda>n. n + 1)) w1"
      using Cons.prems(2) by (simp_all add: ap c Let_def fl)
    then have "calm clk dl (ticks w1)" using Cons.prems(3) by simp
    from V[OF wf' c this] have "val = pv_max (UseAlphaBeta (self w)) (UseOrdering (self w))
        (after bd m) d a be" .
    then show ?thesis
      using True \<open>v = min best val\<close> by (simp add: Let_def)
  next
    case False
    then have r: "min_loop clk dl bd d ms (min best val) a (min be (min best val)) w1 = Some (v, w')"
      using Cons.prems(2) by (auto simp: ap c Let_def fl)
    have "keeps w1 w'" using loop_keeps(2)[OF wf rest r] .
    then have "calm clk dl (ticks w1)" using Cons.prems(3) calm_keeps by blast
    from V[OF wf' c this] have val: "val = pv_max (UseAlphaBeta (self w)) (UseOrdering (self w))
        (after bd m) d a be" .
    from Cons.IH[OF rest r Cons.prems(3)]
    have "v = pv_min_loop (UseAlphaBeta (self w)) (UseOrdering (self w)) bd d ms (min best val)
               a (min be (min best val))"
      by (simp add: fl)
    then show ?thesis
      using False val by (auto simp: Let_def)
  qed
qed

lemma value_pure_step:
  assumes wf: "wf_board bd"
    and L: "\<And>ms w3 v w'. \<forall>m \<in> set ms. applicable m \<Longrightarrow> loop ms w3 = Some (v, w') \<Longrightarrow>
               calm clk dl (ticks w') \<Longrightarrow>
               v = ploop (UseAlphaBeta (self w3)) (UseOrdering (self w3)) ms"
    and run: "(if clk (ticks w) > dl then Some (HeuristicScore bd, w\<lparr>ticks := Suc (ticks w)\<rparr>)
      else if stop then
        Some (HeuristicScore bd, bump (NodesExpanded_update (\<lambda>n. n + 1)) (w\<lparr>ticks := Suc (ticks w)\<rparr>))
      else
        do { (ordered, w3) \<leftarrow> OrderMoves bd sd (legal bd sd)
                               (bump (NodesExpanded_update (\<lambda>n. n + 1)) (w\<lparr>ticks := Suc (ticks w)\<rparr>));
             loop ordered w3 }) = Some (v, w')"
    and calm: "calm clk dl (ticks w')"
  shows "v = (if stop then HeuristicScore bd
              else ploop (UseAlphaBeta (self w)) (UseOrdering (self w))
                     (ordered_moves (UseOrdering (self w)) bd sd (legal bd sd)))"
proof -
  let ?w1 = "w\<lparr>ticks := Suc (ticks w)\<rparr>"
  let ?w2 = "bump (NodesExpanded_update (\<lambda>n. n + 1)) ?w1"
  let ?oms = "ordered_moves (UseOrdering (self w)) bd sd (legal bd sd)"
  have app: "\<forall>m \<in> set (legal bd sd). applicable m" using legal_applicable by blast
  from OrderMoves_eq[OF wf app, of sd ?w2] obtain w3
    where om: "OrderMoves bd sd (legal bd sd) ?w2 = Some (?oms, w3)"
      and k3: "keeps ?w2 w3" and t3: "ticks w3 = ticks ?w2" by auto
  have fl: "UseAlphaBeta (self w3) = UseAlphaBeta (self w)"
           "UseOrdering (self w3) = UseOrdering (self w)"
    using k3 by (simp_all add: keeps_def)
  have app': "\<forall>m \<in> set ?oms. applicable m" using app by simp
  show ?thesis
  proof (cases "clk (ticks w) > dl")
    case True
    then have "w' = ?w1" using run by simp
    then have "clk (ticks w) \<le> dl" using calm by (simp add: calm_def)
    with True show ?thesis by simp
  next
    case nexp: False
    show ?thesis
    proof (cases stop)
      case True
      then show ?thesis using run nexp by simp
    next
      case False
      then have "loop ?oms w3 = Some (v, w')"
        using run nexp om by simp
      from L[OF app' this calm] show ?thesis
        using False by (simp add: fl)
    qed
  qed
qed

lemma values_pure:
  "wf_board bd \<Longrightarrow> calm clk dl (ticks w') \<Longrightarrow>
     (max_value clk dl bd d a be w = Some (v, w') \<longrightarrow>
        v = pv_max (UseAlphaBeta (self w)) (UseOrdering (self w)) bd d a be) \<and>
     (min_value clk dl bd d a be w = Some (v, w') \<longrightarrow>
        v = pv_min (UseAlphaBeta (self w)) (UseOrdering (self w)) bd d a be)"
proof (induction d arbitrary: bd a be w v w')
  case 0
  have e1: "max_value clk dl bd 0 a be w =
     (if clk (ticks w) > dl then Some (HeuristicScore bd, w\<lparr>ticks := Suc (ticks w)\<rparr>)
      else Some (HeuristicScore bd, bump (NodesExpanded_update (\<lambda>n. n + 1)) (w\<lparr>ticks := Suc (ticks w)\<rparr>)))"
    by (simp add: max_value_unfold)
  have e2: "min_value clk dl bd 0 a be w =
     (if clk (ticks w) > dl then Some (HeuristicScore bd, w\<lparr>ticks := Suc (ticks w)\<rparr>)
      else Some (HeuristicScore bd, bump (NodesExpanded_update (\<lambda>n. n + 1)) (w\<lparr>ticks := Suc (ticks w)\<rparr>)))"
    by (simp add: min_value_unfold)
  show ?case
    unfolding e1 e2 by (auto simp: pv_max.simps pv_min.simps split: if_splits)
next
  case (Suc d)
  have mx: "\<And>bd a be w v w'. wf_board bd \<Longrightarrow> max_value clk dl bd d a be w = Some (v, w') \<Longrightarrow>
                calm clk dl (ticks w') \<Longrightarrow>
                v = pv_max (UseAlphaBeta (self w)) (UseOrdering (self w)) bd d a be"
    and mn: "\<And>bd a be w v w'. wf_board bd \<Longrightarrow> min_value clk dl bd d a be w = Some (v, w') \<Longrightarrow>
                calm clk dl (ticks w') \<Longrightarrow>
                v = pv_min (UseAlphaBeta (self w)) (UseOrdering (self w)) bd d a be"
    using Suc.IH by blast+
  have e1: "max_value clk dl bd (Suc d) a be w =
     (if clk (ticks w) > dl then Some (HeuristicScore bd, w\<lparr>ticks := Suc (ticks w)\<rparr>)
      else if terminal bd \<or> legal bd Black = [] then
        Some (HeuristicScore bd, bump (NodesExpanded_update (\<lambda>n. n + 1)) (w\<lparr>ticks := Suc (ticks w)\<rparr>))
      else
        do { (ordered, w3) \<leftarrow> OrderMoves bd Black (legal bd Black)
                               (bump (NodesExpanded_update (\<lambda>n. n + 1)) (w\<lparr>ticks := Suc (ticks w)\<rparr>));
             max_loop clk dl bd d ordered (- big) a be w3 })"
    by (simp add: max_value_unfold)
  have e2: "min_value clk dl bd (Suc d) a be w =
     (if clk (ticks w) > dl then Some (HeuristicScore bd, w\<lparr>ticks := Suc (ticks w)\<rparr>)
      else if terminal bd \<or> legal bd White = [] then
        Some (HeuristicScore bd, bump (NodesExpanded_update (\<lambda>n. n + 1)) (w\<lparr>ticks := Suc (ticks w)\<rparr>))
      else
        do { (ordered, w3) \<leftarrow> OrderMoves bd White (legal bd White)
                               (bump (NodesExpanded_update (\<lambda>n. n + 1)) (w\<lparr>ticks := Suc (ticks w)\<rparr>));
             min_loop clk dl bd d ordered big a be w3 })"
    by (simp add: min_value_unfold)
  have "max_value clk dl bd (Suc d) a be w = Some (v, w') \<Longrightarrow>
        v = pv_max (UseAlphaBeta (self w)) (UseOrdering (self w)) bd (Suc d) a be"
  proof -
    assume run: "max_value clk dl bd (Suc d) a be w = Some (v, w')"
    from value_pure_step[where loop = "\<lambda>ms w3. max_loop clk dl bd d ms (- big) a be w3"
        and ploop = "\<lambda>ab ord ms. pv_max_loop ab ord bd d ms (- big) a be",
        OF Suc.prems(1) max_loop_pure[OF mn Suc.prems(1)] run[unfolded e1] Suc.prems(2)]
    show ?thesis by (simp add: pv_max.simps)
  qed
  moreover have "min_value clk dl bd (Suc d) a be w = Some (v, w') \<Longrightarrow>
        v = pv_min (UseAlphaBeta (self w)) (UseOrdering (self w)) bd (Suc d) a be"
  proof -
    assume run: "min_value clk dl bd (Suc d) a be w = Some (v, w')"
    from value_pure_step[where loop = "\<lambda>ms w3. min_loop clk dl bd d ms big a be w3"
        and ploop = "\<lambda>ab ord ms. pv_min_loop ab ord bd d ms big a be",
        OF Suc.prems(1) min_loop_pure[OF mx Suc.prems(1)] run[unfolded e2] Suc.prems(2)]
    show ?thesis by (simp add: pv_min.simps)
  qed
  ultimately show ?case by blast
qed

text \<open>The root loop and the root search without the clock and the analytics: what
  \<^verbatim>\<open>_SearchDepth\<close> returns when no deadline check fires.\<close>

fun p_root_loop ::
    "bool \<Rightarrow> bool \<Rightarrow> grid \<Rightarrow> bool \<Rightarrow> nat \<Rightarrow> Move list \<Rightarrow> Move option \<Rightarrow> int \<Rightarrow> int \<Rightarrow> int
       \<Rightarrow> Move option \<times> int" where
  "p_root_loop ab ord b maximizing d [] best_move best_score alpha beta = (best_move, best_score)"
| "p_root_loop ab ord b maximizing d (m # ms) best_move best_score alpha beta =
     (if maximizing then
        (let score = pv_min ab ord (after b m) d alpha beta;
             better = score > best_score;
             best_score' = (if better then score else best_score);
             best_move' = (if better then Some m else best_move)
         in p_root_loop ab ord b maximizing d ms best_move' best_score'
              (max alpha best_score') beta)
      else
        (let score = pv_max ab ord (after b m) d alpha beta;
             better = score < best_score;
             best_score' = (if better then score else best_score);
             best_move' = (if better then Some m else best_move)
         in p_root_loop ab ord b maximizing d ms best_move' best_score'
              alpha (min beta best_score')))"

definition p_search :: "bool \<Rightarrow> bool \<Rightarrow> grid \<Rightarrow> side \<Rightarrow> nat \<Rightarrow> Move option \<times> int option" where
  "p_search ab ord b sd depth =
     (if legal b sd = [] then (None, None)
      else (case p_root_loop ab ord b (sd = Black) (depth - 1)
                   (ordered_moves ord b sd (legal b sd)) None
                   (if sd = Black then - big else big) (- big) big of
              (best_move, best_score) \<Rightarrow> (best_move, Some best_score)))"

lemma root_loop_keeps:
  assumes "wf_board b" and "\<forall>m \<in> set ms. applicable m"
    and "root_loop clk dl b mx d idx ms bm bs alpha beta w = Some (r, w')"
  shows "keeps w w'"
  using root_loop_total[OF assms(1,2), of clk dl mx d idx bm bs alpha beta w] assms(3) by auto

lemma root_loop_pure:
  assumes wf: "wf_board b"
  shows "\<forall>m \<in> set ms. applicable m \<Longrightarrow>
         root_loop clk dl b mx d idx ms bm bs alpha beta w = Some (r, w') \<Longrightarrow>
         calm clk dl (ticks w') \<Longrightarrow>
         r = p_root_loop (UseAlphaBeta (self w)) (UseOrdering (self w)) b mx d ms bm bs alpha beta"
proof (induction ms arbitrary: idx bm bs alpha beta w)
  case Nil
  then show ?case by simp
next
  case (Cons m ms)
  have ap: "ApplyMove b m = Some (after b m)" and wf': "wf_board (after b m)"
    using ApplyMove_after[OF wf, of m] Cons.prems(1) by simp_all
  have rest: "\<forall>m \<in> set ms. applicable m" using Cons.prems(1) by simp
  show ?case
  proof (cases mx)
    case True
    from values_total[OF wf', of clk dl d alpha beta w] obtain score w1
      where c: "min_value clk dl (after b m) d alpha beta w = Some (score, w1)"
        and k1: "keeps w w1" by blast
    let ?w2 = "if score > bs \<and> idx > 0 then bump (OrderingGains_update (\<lambda>n. n + 1)) w1 else w1"
    let ?w3 = "?w2\<lparr>ticks := Suc (ticks ?w2)\<rparr>"
    let ?bs' = "if score > bs then score else bs"
    let ?bm' = "if score > bs then Some m else bm"
    have t2: "ticks ?w2 = ticks w1" by simp
    have fl: "UseAlphaBeta (self ?w3) = UseAlphaBeta (self w)"
             "UseOrdering (self ?w3) = UseOrdering (self w)"
      using k1 by (simp_all add: keeps_def)
    have run: "(if clk (ticks w1) > dl then Some ((?bm', ?bs'), ?w3)
                else root_loop clk dl b mx d (Suc idx) ms ?bm' ?bs' (max alpha ?bs') beta ?w3)
               = Some (r, w')"
      using Cons.prems(2) True by (auto simp: ap c Let_def time_time_def split: if_splits)
    have le: "ticks ?w3 \<le> ticks w'"
    proof (cases "clk (ticks w1) > dl")
      case True
      then show ?thesis using run by auto
    next
      case False
      then have "root_loop clk dl b mx d (Suc idx) ms ?bm' ?bs' (max alpha ?bs') beta ?w3
                 = Some (r, w')" using run by simp
      from root_loop_keeps[OF wf rest this] show ?thesis by (simp add: keeps_def)
    qed
    then have c3: "calm clk dl (Suc (ticks w1))"
      using Cons.prems(3) by (auto intro: calm_mono)
    then have nexp: "\<not> clk (ticks w1) > dl" by (auto simp: calm_def)
    have c1: "calm clk dl (ticks w1)" using c3 by (auto intro: calm_mono)
    have sc: "score = pv_min (UseAlphaBeta (self w)) (UseOrdering (self w)) (after b m) d alpha beta"
      using values_pure[OF wf' c1, of d alpha beta w score] c by simp
    have "root_loop clk dl b mx d (Suc idx) ms ?bm' ?bs' (max alpha ?bs') beta ?w3 = Some (r, w')"
      using run nexp by simp
    from Cons.IH[OF rest this Cons.prems(3)]
    have "r = p_root_loop (UseAlphaBeta (self w)) (UseOrdering (self w)) b mx d ms ?bm' ?bs'
                (max alpha ?bs') beta"
      unfolding fl .
    then show ?thesis
      using True sc by (simp add: Let_def)
  next
    case False
    from values_total[OF wf', of clk dl d alpha beta w] obtain score w1
      where c: "max_value clk dl (after b m) d alpha beta w = Some (score, w1)"
        and k1: "keeps w w1" by blast
    let ?w2 = "if score < bs \<and> idx > 0 then bump (OrderingGains_update (\<lambda>n. n + 1)) w1 else w1"
    let ?w3 = "?w2\<lparr>ticks := Suc (ticks ?w2)\<rparr>"
    let ?bs' = "if score < bs then score else bs"
    let ?bm' = "if score < bs then Some m else bm"
    have fl: "UseAlphaBeta (self ?w3) = UseAlphaBeta (self w)"
             "UseOrdering (self ?w3) = UseOrdering (self w)"
      using k1 by (simp_all add: keeps_def)
    have run: "(if clk (ticks w1) > dl then Some ((?bm', ?bs'), ?w3)
                else root_loop clk dl b mx d (Suc idx) ms ?bm' ?bs' alpha (min beta ?bs') ?w3)
               = Some (r, w')"
      using Cons.prems(2) False by (auto simp: ap c Let_def time_time_def split: if_splits)
    have le: "ticks ?w3 \<le> ticks w'"
    proof (cases "clk (ticks w1) > dl")
      case True
      then show ?thesis using run by auto
    next
      case False
      then have "root_loop clk dl b mx d (Suc idx) ms ?bm' ?bs' alpha (min beta ?bs') ?w3
                 = Some (r, w')" using run by simp
      from root_loop_keeps[OF wf rest this] show ?thesis by (simp add: keeps_def)
    qed
    then have c3: "calm clk dl (Suc (ticks w1))"
      using Cons.prems(3) by (auto intro: calm_mono)
    then have nexp: "\<not> clk (ticks w1) > dl" by (auto simp: calm_def)
    have c1: "calm clk dl (ticks w1)" using c3 by (auto intro: calm_mono)
    have sc: "score = pv_max (UseAlphaBeta (self w)) (UseOrdering (self w)) (after b m) d alpha beta"
      using values_pure[OF wf' c1, of d alpha beta w score] c by simp
    have "root_loop clk dl b mx d (Suc idx) ms ?bm' ?bs' alpha (min beta ?bs') ?w3 = Some (r, w')"
      using run nexp by simp
    from Cons.IH[OF rest this Cons.prems(3)]
    have "r = p_root_loop (UseAlphaBeta (self w)) (UseOrdering (self w)) b mx d ms ?bm' ?bs'
                alpha (min beta ?bs')"
      unfolding fl .
    then show ?thesis
      using False sc by (simp add: Let_def)
  qed
qed

lemma SearchDepth_pure:
  assumes wf: "wf_board b"
    and run: "SearchDepth clk b sd depth dl w = Some (r, b', w')"
    and calm: "calm clk dl (ticks w')"
  shows "r = p_search (UseAlphaBeta (self w)) (UseOrdering (self w)) b sd depth"
proof (cases "legal b sd = []")
  case True
  then show ?thesis
    using run by (simp add: SearchDepth_def time_time_def AllLegalMoves_pair p_search_def)
next
  case False
  let ?w0 = "w\<lparr>ticks := Suc (ticks w)\<rparr>"
  let ?oms = "ordered_moves (UseOrdering (self w)) b sd (legal b sd)"
  have app: "\<forall>m \<in> set (legal b sd). applicable m" using legal_applicable by blast
  from OrderMoves_eq[OF wf app, of sd ?w0] obtain w1
    where om: "OrderMoves b sd (legal b sd) ?w0 = Some (?oms, w1)"
      and k1: "keeps ?w0 w1" by auto
  have fl: "UseAlphaBeta (self w1) = UseAlphaBeta (self w)"
           "UseOrdering (self w1) = UseOrdering (self w)"
    using k1 by (simp_all add: keeps_def)
  have app': "\<forall>m \<in> set ?oms. applicable m" using app by simp
  from root_loop_total[OF wf app', of clk dl "sd = Black" "depth - 1" 0 None
      "if sd = Black then - big else big" "- big" big w1]
  obtain rr w2 where rl: "root_loop clk dl b (sd = Black) (depth - 1) 0 ?oms None
        (if sd = Black then - big else big) (- big) big w1 = Some (rr, w2)"
    by blast
  obtain bm bs where rr: "rr = (bm, bs)" by (cases rr)
  let ?w4 = "bump (ElapsedMs_update (\<lambda>n. n + py_int ((clk (ticks w2) - clk (ticks w)) * 1000)))
               (w2\<lparr>ticks := Suc (ticks w2)\<rparr>)"
  have "SearchDepth clk b sd depth dl w = Some ((bm, Some bs), b, ?w4)"
    unfolding SearchDepth_def time_time_def AllLegalMoves_pair Let_def
    using False om rl rr by simp
  then have r: "r = (bm, Some bs)" and w': "w' = ?w4" using run by simp_all
  have "calm clk dl (ticks w2)" using calm unfolding w' by (auto intro: calm_mono)
  from root_loop_pure[OF wf app' rl this]
  have "rr = p_root_loop (UseAlphaBeta (self w)) (UseOrdering (self w)) b (sd = Black) (depth - 1)
               ?oms None (if sd = Black then - big else big) (- big) big"
    unfolding fl .
  then have pr: "p_root_loop (UseAlphaBeta (self w)) (UseOrdering (self w)) b (sd = Black) (depth - 1)
               ?oms None (if sd = Black then - big else big) (- big) big = (bm, bs)"
    using rr by simp
  show ?thesis
    unfolding p_search_def r using False pr by simp
qed

subsection \<open>What a call of ChooseMove leaves behind\<close>

text \<open>
  Claim C4. \<^verbatim>\<open>AllLegalMoves\<close> leaves the board as it found it: every exploratory mutation
  of the capture search is undone. \<^verbatim>\<open>ChooseMove\<close> on an 8x8 board returns, and leaves the
  caller's board as it found it, whatever the clock, the side, the budgets and the mode.
\<close>

theorem search_leaves_board_unchanged:
  "snd (AllLegalMoves b sd) = b \<and>
   (wf_board b \<longrightarrow>
      (\<exists>mv w'. ChooseMove clk b sd SecondsBudget PlyLimit w = Some (mv, b, w')))"
  using AllLegalMoves_board[of b sd] ChooseMove_total[of b clk sd SecondsBudget PlyLimit w]
  by blast

theorem search_leaves_board_unchanged_witness:
  "snd (AllLegalMoves round_trip_board White) = round_trip_board \<and>
   wf_board InitialBoard \<and>
   (\<exists>mv w'. ChooseMove (\<lambda>k. real k) InitialBoard Black 2 7
               \<lparr>self = SearchToolBox_init ''alpha-beta-ordering'', ticks = 0\<rparr>
             = Some (mv, InitialBoard, w'))"
proof -
  have wf: "wf_board InitialBoard" by (simp add: InitialBoard_ok)
  show ?thesis
    using wf search_leaves_board_unchanged[of round_trip_board White]
      search_leaves_board_unchanged[of InitialBoard Black "\<lambda>k. real k" 2 7
        "\<lparr>self = SearchToolBox_init ''alpha-beta-ordering'', ticks = 0\<rparr>"]
    by blast
qed

text \<open>
  Claim C10. After \<^verbatim>\<open>ChooseMove\<close> returns, the field \<^verbatim>\<open>MaxFringeSize\<close> of the analytics is
  0, for every board, side, time budget, ply limit, clock and mode: the call starts from a
  fresh \<^verbatim>\<open>MoveAnalytics()\<close> and no step of the search writes the field.
\<close>

theorem MaxFringeSize_never_measured:
  assumes "wf_board b"
  shows "\<exists>mv b' w'. ChooseMove clk b sd SecondsBudget PlyLimit w = Some (mv, b', w') \<and>
           MaxFringeSize (Analytics (self w')) = 0"
  using ChooseMove_total[OF assms, of clk sd SecondsBudget PlyLimit w] by blast

theorem MaxFringeSize_never_measured_witness:
  "wf_board single_jump_board \<and>
   (\<exists>mv b' w'. ChooseMove (\<lambda>k. real k / 1000) single_jump_board Black 1 5
                  \<lparr>self = SearchToolBox_init ''minimax'', ticks = 0\<rparr> = Some (mv, b', w') \<and>
       MaxFringeSize (Analytics (self w')) = 0)"
proof -
  have wf: "wf_board single_jump_board" by code_simp
  show ?thesis
    using wf MaxFringeSize_never_measured[OF wf, of "\<lambda>k. real k / 1000" Black 1 5
        "\<lparr>self = SearchToolBox_init ''minimax'', ticks = 0\<rparr>"]
    by blast
qed

subsection \<open>Bounds of the heuristic\<close>

lemma fold_add_sum: "fold (\<lambda>c v. v + f c) cs (v0 :: int) = v0 + sum_list (map f cs)"
  by (induction cs arbitrary: v0) simp_all

lemma fold_add_sum_fun: "fold (\<lambda>c v. v + f c) cs = (\<lambda>v0 :: int. v0 + sum_list (map f cs))"
  by (rule ext) (rule fold_add_sum)

lemma HeuristicScore_sum:
  "HeuristicScore b =
     sum_list (map (\<lambda>r. sum_list (map (\<lambda>c. piece_value r (cell b r c)) [0..7])) [0..7])"
  unfolding HeuristicScore_def fold_add_sum_fun by (simp add: fold_add_sum)

lemma sum_list_abs_bound:
  assumes "\<forall>x \<in> set xs. \<bar>f x\<bar> \<le> (k :: int)"
  shows "\<bar>sum_list (map f xs)\<bar> \<le> k * int (length xs)"
  using assms
proof (induction xs)
  case Nil
  then show ?case by simp
next
  case (Cons x xs)
  then have "\<bar>f x\<bar> \<le> k" and "\<bar>sum_list (map f xs)\<bar> \<le> k * int (length xs)" by simp_all
  then show ?case by (simp add: algebra_simps)
qed

lemma piece_value_bound: "0 \<le> r \<Longrightarrow> r \<le> 7 \<Longrightarrow> \<bar>piece_value r p\<bar> \<le> 10"
  by (simp add: piece_value_def bsize_def)

lemma length_upto_0_7: "length [0..7::int] = 8"
  by (simp add: upto.simps)

lemma HeuristicScore_bound: "\<bar>HeuristicScore b\<bar> \<le> 640"
proof -
  have row: "\<forall>r \<in> set [0..7]. \<bar>sum_list (map (\<lambda>c. piece_value r (cell b r c)) [0..7])\<bar> \<le> 80"
  proof
    fix r :: int assume "r \<in> set [0..7]"
    then have r: "0 \<le> r" "r \<le> 7" by simp_all
    have "\<forall>c \<in> set [0..7]. \<bar>piece_value r (cell b r c)\<bar> \<le> 10"
      using piece_value_bound[OF r] by simp
    from sum_list_abs_bound[OF this]
    show "\<bar>sum_list (map (\<lambda>c. piece_value r (cell b r c)) [0..7])\<bar> \<le> 80"
      by (simp add: length_upto_0_7)
  qed
  from sum_list_abs_bound[OF row] show ?thesis
    by (simp add: HeuristicScore_sum length_upto_0_7)
qed

lemma HeuristicScore_big: "- big < HeuristicScore b" "HeuristicScore b < big"
  using HeuristicScore_bound[of b] by (simp_all add: big_def)

subsection \<open>Minimax values and fail-soft answers\<close>

text \<open>The minimax value of a position at a depth, over the game tree that the search walks:
  a node with depth left, not terminal and with moves takes the best of its successors'
  values, starting from the bound that stands for infinity.\<close>

fun mm_max :: "nat \<Rightarrow> grid \<Rightarrow> int" and mm_min :: "nat \<Rightarrow> grid \<Rightarrow> int" where
  "mm_max 0 bd = HeuristicScore bd"
| "mm_max (Suc d) bd =
     (if terminal bd \<or> legal bd Black = [] then HeuristicScore bd
      else fold (\<lambda>m acc. max acc (mm_min d (after bd m))) (legal bd Black) (- big))"
| "mm_min 0 bd = HeuristicScore bd"
| "mm_min (Suc d) bd =
     (if terminal bd \<or> legal bd White = [] then HeuristicScore bd
      else fold (\<lambda>m acc. min acc (mm_max d (after bd m))) (legal bd White) big)"

text \<open>A fail-soft answer \<open>v\<close> for the true value \<open>t\<close> in the window \<open>(a, b)\<close>.\<close>

definition fb :: "int \<Rightarrow> int \<Rightarrow> int \<Rightarrow> int \<Rightarrow> bool" where
  "fb a b t v \<longleftrightarrow> (v \<le> a \<longrightarrow> t \<le> v) \<and> (a < v \<and> v < b \<longrightarrow> v = t) \<and> (b \<le> v \<longrightarrow> v \<le> t)"

definition inv_max :: "int \<Rightarrow> int \<Rightarrow> int \<Rightarrow> bool" where
  "inv_max a0 best T \<longleftrightarrow> (best \<le> a0 \<longrightarrow> T \<le> best) \<and> (a0 < best \<longrightarrow> T = best)"

definition inv_min :: "int \<Rightarrow> int \<Rightarrow> int \<Rightarrow> bool" where
  "inv_min b0 best T \<longleftrightarrow> (b0 \<le> best \<longrightarrow> best \<le> T) \<and> (best < b0 \<longrightarrow> T = best)"

lemma fb_exact [simp]: "fb a b t t"
  by (simp add: fb_def)

lemma max_step_cut:
  assumes "fb a be t val" and "a = max a0 best" and "a < be"
    and "be \<le> max a (max best val)" and "max T t \<le> T'"
  shows "fb a0 be T' (max best val)"
  using assms unfolding fb_def by (auto simp: max_def split: if_splits)

lemma max_step_inv:
  assumes "fb a be t val" and "a = max a0 best" and "a < be"
    and "\<not> be \<le> max a (max best val)" and "inv_max a0 best T"
  shows "inv_max a0 (max best val) (max T t)"
  using assms unfolding fb_def inv_max_def by (auto simp: max_def split: if_splits)

lemma max_end: "a = max a0 best \<Longrightarrow> a < be \<Longrightarrow> inv_max a0 best T \<Longrightarrow> fb a0 be T best"
  unfolding fb_def inv_max_def by (auto simp: max_def split: if_splits)

lemma min_step_cut:
  assumes "fb a be t val" and "be = min be0 best" and "a < be"
    and "min be (min best val) \<le> a" and "T' \<le> min T t"
  shows "fb a be0 T' (min best val)"
  using assms unfolding fb_def by (auto simp: min_def split: if_splits)

lemma min_step_inv:
  assumes "fb a be t val" and "be = min be0 best" and "a < be"
    and "\<not> min be (min best val) \<le> a" and "inv_min be0 best T"
  shows "inv_min be0 (min best val) (min T t)"
  using assms unfolding fb_def inv_min_def by (auto simp: min_def split: if_splits)

lemma min_end: "be = min be0 best \<Longrightarrow> a < be \<Longrightarrow> inv_min be0 best T \<Longrightarrow> fb a be0 T best"
  unfolding fb_def inv_min_def by (auto simp: min_def split: if_splits)

lemma fold_max_ge: "x \<le> fold (\<lambda>m acc. max acc (f m)) ms (x :: int)"
proof (induction ms arbitrary: x)
  case Nil
  then show ?case by simp
next
  case (Cons m ms)
  have "x \<le> max x (f m)" by simp
  also have "\<dots> \<le> fold (\<lambda>m acc. max acc (f m)) ms (max x (f m))" by (rule Cons.IH)
  finally show ?case by simp
qed

lemma fold_min_le: "fold (\<lambda>m acc. min acc (f m)) ms (x :: int) \<le> x"
proof (induction ms arbitrary: x)
  case Nil
  then show ?case by simp
next
  case (Cons m ms)
  have "fold (\<lambda>m acc. min acc (f m)) ms (min x (f m)) \<le> min x (f m)" by (rule Cons.IH)
  also have "\<dots> \<le> x" by simp
  finally show ?case by simp
qed

lemma ordered_moves_off [simp]: "ordered_moves False b sd ms = ms"
  by (simp add: ordered_moves_def)

subsection \<open>Without pruning the value functions compute the minimax value\<close>

lemma pv_max_loop_plain:
  assumes "\<And>bd a be. pv_min False False bd d a be = mm_min d bd"
  shows "pv_max_loop False False bd d ms best a be =
         fold (\<lambda>m acc. max acc (mm_min d (after bd m))) ms best"
  by (induction ms arbitrary: best a) (simp_all add: assms Let_def)

lemma pv_min_loop_plain:
  assumes "\<And>bd a be. pv_max False False bd d a be = mm_max d bd"
  shows "pv_min_loop False False bd d ms best a be =
         fold (\<lambda>m acc. min acc (mm_max d (after bd m))) ms best"
  by (induction ms arbitrary: best be) (simp_all add: assms Let_def)

lemma pv_plain:
  "pv_max False False bd d a be = mm_max d bd \<and> pv_min False False bd d a be = mm_min d bd"
proof (induction d arbitrary: bd a be)
  case 0
  show ?case by (simp add: pv_max.simps pv_min.simps)
next
  case (Suc d)
  have mx: "\<And>bd a be. pv_max False False bd d a be = mm_max d bd"
    and mn: "\<And>bd a be. pv_min False False bd d a be = mm_min d bd"
    using Suc.IH by simp_all
  show ?case
    by (simp add: pv_max.simps[of _ _ _ "Suc d"] pv_min.simps[of _ _ _ "Suc d"]
        pv_max_loop_plain[OF mn] pv_min_loop_plain[OF mx])
qed

subsection \<open>With pruning they compute a fail-soft answer for it\<close>

lemma pv_max_loop_fb:
  assumes C: "\<And>bd a be. - big \<le> a \<Longrightarrow> a < be \<Longrightarrow> be \<le> big \<Longrightarrow>
                fb a be (mm_min d bd) (pv_min True False bd d a be)"
  shows "a = max a0 best \<Longrightarrow> a < be \<Longrightarrow> - big \<le> a0 \<Longrightarrow> be \<le> big \<Longrightarrow> inv_max a0 best T \<Longrightarrow>
         fb a0 be (fold (\<lambda>m acc. max acc (mm_min d (after bd m))) ms T)
           (pv_max_loop True False bd d ms best a be)"
proof (induction ms arbitrary: best a T)
  case Nil
  then show ?case by (simp add: max_end)
next
  case (Cons m ms)
  let ?val = "pv_min True False (after bd m) d a be"
  let ?t = "mm_min d (after bd m)"
  have "- big \<le> a" using Cons.prems(1,3) by simp
  from C[OF this Cons.prems(2,4)] have f: "fb a be ?t ?val" .
  show ?case
  proof (cases "be \<le> max a (max best ?val)")
    case True
    have "max T ?t \<le> fold (\<lambda>m acc. max acc (mm_min d (after bd m))) ms (max T ?t)"
      by (rule fold_max_ge)
    from max_step_cut[OF f Cons.prems(1,2) True this]
    show ?thesis using True by (simp add: Let_def)
  next
    case False
    have a': "max a (max best ?val) = max a0 (max best ?val)"
      using Cons.prems(1) by simp
    have lt: "max a (max best ?val) < be" using False unfolding not_le .
    from Cons.IH[OF a' lt Cons.prems(3,4) max_step_inv[OF f Cons.prems(1,2) False Cons.prems(5)]]
    show ?thesis using False by (simp add: Let_def)
  qed
qed

lemma pv_min_loop_fb:
  assumes C: "\<And>bd a be. - big \<le> a \<Longrightarrow> a < be \<Longrightarrow> be \<le> big \<Longrightarrow>
                fb a be (mm_max d bd) (pv_max True False bd d a be)"
  shows "be = min be0 best \<Longrightarrow> a < be \<Longrightarrow> - big \<le> a \<Longrightarrow> be0 \<le> big \<Longrightarrow> inv_min be0 best T \<Longrightarrow>
         fb a be0 (fold (\<lambda>m acc. min acc (mm_max d (after bd m))) ms T)
           (pv_min_loop True False bd d ms best a be)"
proof (induction ms arbitrary: best be T)
  case Nil
  then show ?case by (simp add: min_end)
next
  case (Cons m ms)
  let ?val = "pv_max True False (after bd m) d a be"
  let ?t = "mm_max d (after bd m)"
  have "be \<le> big" using Cons.prems(1,4) by simp
  from C[OF Cons.prems(3,2) this] have f: "fb a be ?t ?val" .
  show ?case
  proof (cases "min be (min best ?val) \<le> a")
    case True
    have "fold (\<lambda>m acc. min acc (mm_max d (after bd m))) ms (min T ?t) \<le> min T ?t"
      by (rule fold_min_le)
    from min_step_cut[OF f Cons.prems(1,2) True this]
    show ?thesis using True by (simp add: Let_def)
  next
    case False
    have b': "min be (min best ?val) = min be0 (min best ?val)"
      using Cons.prems(1) by simp
    have lt: "a < min be (min best ?val)" using False unfolding not_le .
    from Cons.IH[OF b' lt Cons.prems(3,4) min_step_inv[OF f Cons.prems(1,2) False Cons.prems(5)]]
    show ?thesis using False by (simp add: Let_def)
  qed
qed

lemma pv_fb:
  "- big \<le> a \<Longrightarrow> a < be \<Longrightarrow> be \<le> big \<Longrightarrow>
     fb a be (mm_max d bd) (pv_max True False bd d a be) \<and>
     fb a be (mm_min d bd) (pv_min True False bd d a be)"
proof (induction d arbitrary: bd a be)
  case 0
  show ?case by (simp add: pv_max.simps pv_min.simps)
next
  case (Suc d)
  have mx: "\<And>bd a be. - big \<le> a \<Longrightarrow> a < be \<Longrightarrow> be \<le> big \<Longrightarrow>
                fb a be (mm_max d bd) (pv_max True False bd d a be)"
    and mn: "\<And>bd a be. - big \<le> a \<Longrightarrow> a < be \<Longrightarrow> be \<le> big \<Longrightarrow>
                fb a be (mm_min d bd) (pv_min True False bd d a be)"
    using Suc.IH by blast+
  have amax: "a = max a (- big)" using Suc.prems(1) by simp
  have bmin: "be = min be big" using Suc.prems(3) by simp
  have i1: "inv_max a (- big) (- big)" using Suc.prems(1) by (simp add: inv_max_def)
  have i2: "inv_min be big big" using Suc.prems(3) by (simp add: inv_min_def)
  have "fb a be (mm_max (Suc d) bd) (pv_max True False bd (Suc d) a be)"
    using pv_max_loop_fb[OF mn amax Suc.prems(2,1,3) i1, of bd "legal bd Black"]
    by (simp add: pv_max.simps[of _ _ _ "Suc d"])
  moreover have "fb a be (mm_min (Suc d) bd) (pv_min True False bd (Suc d) a be)"
    using pv_min_loop_fb[OF mx bmin Suc.prems(2,1,3) i2, of bd "legal bd White"]
    by (simp add: pv_min.simps[of _ _ _ "Suc d"])
  ultimately show ?case by simp
qed

subsection \<open>Bounds of the minimax value\<close>

lemma fold_max_bound:
  assumes "ms \<noteq> []" and "\<forall>m \<in> set ms. lo \<le> f m \<and> f m \<le> hi" and "x \<le> (hi :: int)"
  shows "lo \<le> fold (\<lambda>m acc. max acc (f m)) ms x \<and> fold (\<lambda>m acc. max acc (f m)) ms x \<le> hi"
  using assms
proof (induction ms arbitrary: x)
  case Nil
  then show ?case by simp
next
  case (Cons m ms)
  show ?case
  proof (cases "ms = []")
    case True
    then show ?thesis using Cons.prems by auto
  next
    case False
    from Cons.IH[OF False, of "max x (f m)"] Cons.prems show ?thesis by auto
  qed
qed

lemma fold_min_bound:
  assumes "ms \<noteq> []" and "\<forall>m \<in> set ms. lo \<le> f m \<and> f m \<le> hi" and "(lo :: int) \<le> x"
  shows "lo \<le> fold (\<lambda>m acc. min acc (f m)) ms x \<and> fold (\<lambda>m acc. min acc (f m)) ms x \<le> hi"
  using assms
proof (induction ms arbitrary: x)
  case Nil
  then show ?case by simp
next
  case (Cons m ms)
  show ?case
  proof (cases "ms = []")
    case True
    then show ?thesis using Cons.prems by auto
  next
    case False
    from Cons.IH[OF False, of "min x (f m)"] Cons.prems show ?thesis by auto
  qed
qed

lemma mm_bound:
  "(- 640 \<le> mm_max d bd \<and> mm_max d bd \<le> 640) \<and> (- 640 \<le> mm_min d bd \<and> mm_min d bd \<le> 640)"
proof (induction d arbitrary: bd)
  case 0
  show ?case using HeuristicScore_bound[of bd] by (simp add: abs_le_iff)
next
  case (Suc d)
  have h: "- 640 \<le> HeuristicScore bd \<and> HeuristicScore bd \<le> 640"
    using HeuristicScore_bound[of bd] by (simp add: abs_le_iff)
  have mx: "\<And>ms. \<forall>m \<in> set ms. - 640 \<le> mm_max d (after bd m) \<and> mm_max d (after bd m) \<le> 640"
    and mn: "\<And>ms. \<forall>m \<in> set ms. - 640 \<le> mm_min d (after bd m) \<and> mm_min d (after bd m) \<le> 640"
    using Suc.IH by simp_all
  have "- 640 \<le> mm_max (Suc d) bd \<and> mm_max (Suc d) bd \<le> 640"
    using h fold_max_bound[OF _ mn, of "legal bd Black" "- big"]
    by (simp add: big_def)
  moreover have "- 640 \<le> mm_min (Suc d) bd \<and> mm_min (Suc d) bd \<le> 640"
    using h fold_min_bound[OF _ mx, of "legal bd White" big]
    by (simp add: big_def)
  ultimately show ?case by simp
qed

lemma mm_big: "- big < mm_max d bd" "mm_max d bd < big" "- big < mm_min d bd" "mm_min d bd < big"
  using mm_bound[of d bd] by (simp_all add: big_def)

subsection \<open>The root score\<close>

lemma root_plain_max:
  "snd (p_root_loop False False b True d ms bm bs alpha beta) =
   fold (\<lambda>m acc. max acc (mm_min d (after b m))) ms bs"
  by (induction ms arbitrary: bm bs alpha) (auto simp: Let_def pv_plain max_def)

lemma root_plain_min:
  "snd (p_root_loop False False b False d ms bm bs alpha beta) =
   fold (\<lambda>m acc. min acc (mm_max d (after b m))) ms bs"
  by (induction ms arbitrary: bm bs beta) (auto simp: Let_def pv_plain min_def)

lemma root_pruned_max:
  "- big \<le> bs \<Longrightarrow> bs < big \<Longrightarrow>
   snd (p_root_loop True False b True d ms bm bs bs big) =
   fold (\<lambda>m acc. max acc (mm_min d (after b m))) ms bs"
proof (induction ms arbitrary: bm bs)
  case Nil
  then show ?case by simp
next
  case (Cons m ms)
  let ?score = "pv_min True False (after b m) d bs big"
  let ?t = "mm_min d (after b m)"
  have f: "fb bs big ?t ?score" using pv_fb[OF Cons.prems(1,2), of d "after b m"] by simp
  have tb: "?t < big" by (rule mm_big)
  let ?bs' = "if ?score > bs then ?score else bs"
  have bs': "?bs' = max bs ?t"
    using f tb unfolding fb_def by (auto simp: max_def)
  have a': "max bs ?bs' = ?bs'" by simp
  have b1: "- big \<le> ?bs'" using Cons.prems(1) by auto
  have b2: "?bs' < big" unfolding bs' using Cons.prems(2) tb by simp
  have "snd (p_root_loop True False b True d (m # ms) bm bs bs big) =
        snd (p_root_loop True False b True d ms (if ?score > bs then Some m else bm) ?bs' ?bs' big)"
    by (simp add: Let_def a')
  also have "\<dots> = fold (\<lambda>m acc. max acc (mm_min d (after b m))) ms ?bs'"
    by (rule Cons.IH[OF b1 b2])
  finally show ?case unfolding bs' by simp
qed

lemma root_pruned_min:
  "- big < bs \<Longrightarrow> bs \<le> big \<Longrightarrow>
   snd (p_root_loop True False b False d ms bm bs (- big) bs) =
   fold (\<lambda>m acc. min acc (mm_max d (after b m))) ms bs"
proof (induction ms arbitrary: bm bs)
  case Nil
  then show ?case by simp
next
  case (Cons m ms)
  let ?score = "pv_max True False (after b m) d (- big) bs"
  let ?t = "mm_max d (after b m)"
  have f: "fb (- big) bs ?t ?score" using pv_fb[OF _ Cons.prems(1,2), of d "after b m"] by simp
  have tb: "- big < ?t" by (rule mm_big)
  let ?bs' = "if ?score < bs then ?score else bs"
  have bs': "?bs' = min bs ?t"
    using f tb unfolding fb_def by (auto simp: min_def)
  have a': "min bs ?bs' = ?bs'" by simp
  have b1: "?bs' \<le> big" using Cons.prems(2) by auto
  have b2: "- big < ?bs'" unfolding bs' using Cons.prems(1) tb by simp
  have "snd (p_root_loop True False b False d (m # ms) bm bs (- big) bs) =
        snd (p_root_loop True False b False d ms (if ?score < bs then Some m else bm) ?bs' (- big) ?bs')"
    by (simp add: Let_def a')
  also have "\<dots> = fold (\<lambda>m acc. min acc (mm_max d (after b m))) ms ?bs'"
    by (rule Cons.IH[OF b2 b1])
  finally show ?case unfolding bs' by simp
qed

lemma p_search_score_same:
  "snd (p_search True False b sd depth) = snd (p_search False False b sd depth)"
proof (cases "legal b sd = []")
  case True
  then show ?thesis by (simp add: p_search_def)
next
  case False
  have bg: "- big \<le> - big" "- big < big" "big \<le> big" by (simp_all add: big_def)
  show ?thesis
  proof (cases "sd = Black")
    case True
    have "snd (p_root_loop True False b True (depth - 1) (legal b sd) None (- big) (- big) big) =
          snd (p_root_loop False False b True (depth - 1) (legal b sd) None (- big) (- big) big)"
      by (simp only: root_pruned_max[OF bg(1,2)] root_plain_max)
    then show ?thesis
      using False True by (simp add: p_search_def case_prod_beta)
  next
    case nb: False
    have "snd (p_root_loop True False b False (depth - 1) (legal b sd) None big (- big) big) =
          snd (p_root_loop False False b False (depth - 1) (legal b sd) None big (- big) big)"
      by (simp only: root_pruned_min[OF bg(2,3)] root_plain_min)
    then show ?thesis
      using False nb by (simp add: p_search_def case_prod_beta)
  qed
qed

subsection \<open>Pruning and the root score\<close>

text \<open>A world whose tool box was built by \<^verbatim>\<open>SearchToolBox(mode=md)\<close>, with any analytics.\<close>

definition in_mode :: "string \<Rightarrow> world \<Rightarrow> bool" where
  "in_mode md w \<longleftrightarrow> self w = (SearchToolBox_init md)\<lparr>Analytics := Analytics (self w)\<rparr>"

lemma in_mode_flags:
  assumes "in_mode md w"
  shows "UseAlphaBeta (self w) = (md \<in> {''alpha-beta'', ''alpha-beta-ordering''})"
    and "UseOrdering (self w) = (md = ''alpha-beta-ordering'')"
proof -
  have "UseAlphaBeta (self w) =
        UseAlphaBeta ((SearchToolBox_init md)\<lparr>Analytics := Analytics (self w)\<rparr>)"
    using assms by (simp add: in_mode_def)
  then show "UseAlphaBeta (self w) = (md \<in> {''alpha-beta'', ''alpha-beta-ordering''})"
    by (simp add: SearchToolBox_init_def)
  have "UseOrdering (self w) =
        UseOrdering ((SearchToolBox_init md)\<lparr>Analytics := Analytics (self w)\<rparr>)"
    using assms by (simp add: in_mode_def)
  then show "UseOrdering (self w) = (md = ''alpha-beta-ordering'')"
    by (simp add: SearchToolBox_init_def)
qed

lemma calm_always: "\<forall>k. clk k \<le> dl \<Longrightarrow> calm clk dl n"
  by (simp add: calm_def)

lemma SearchDepth_unhurried:
  assumes "wf_board b" and "\<forall>k. clk k \<le> dl"
  shows "\<exists>w'. SearchDepth clk b sd depth dl w =
           Some (p_search (UseAlphaBeta (self w)) (UseOrdering (self w)) b sd depth, b, w')"
proof -
  from SearchDepth_total[OF assms(1), of clk sd depth dl w] obtain r w'
    where run: "SearchDepth clk b sd depth dl w = Some (r, b, w')" by blast
  from SearchDepth_pure[OF assms(1) run calm_always[OF assms(2)]] run
  show ?thesis by blast
qed

text \<open>
  Claim C7. For every 8x8 board, side and depth of at least 1, when no clock reading is
  past the deadline: the root search in mode \<^verbatim>\<open>"minimax"\<close> and the root search in mode
  \<^verbatim>\<open>"alpha-beta"\<close> both return, with the same best score.
\<close>

theorem minimax_alpha_beta_same_score:
  assumes "wf_board b" and "1 \<le> depth" and "\<forall>k. clk k \<le> deadline"
    and "in_mode ''minimax'' w1" and "in_mode ''alpha-beta'' w2"
  shows "\<exists>mv1 mv2 score b1 b2 w1' w2'.
           SearchDepth clk b sd depth deadline w1 = Some ((mv1, score), b1, w1') \<and>
           SearchDepth clk b sd depth deadline w2 = Some ((mv2, score), b2, w2')"
proof -
  have f1: "UseAlphaBeta (self w1) = False" "UseOrdering (self w1) = False"
    using in_mode_flags[OF assms(4)] by simp_all
  have f2: "UseAlphaBeta (self w2) = True" "UseOrdering (self w2) = False"
    using in_mode_flags[OF assms(5)] by simp_all
  from SearchDepth_unhurried[OF assms(1,3), of sd depth w1] obtain w1'
    where r1: "SearchDepth clk b sd depth deadline w1 =
                 Some (p_search False False b sd depth, b, w1')"
    unfolding f1 by blast
  from SearchDepth_unhurried[OF assms(1,3), of sd depth w2] obtain w2'
    where r2: "SearchDepth clk b sd depth deadline w2 =
                 Some (p_search True False b sd depth, b, w2')"
    unfolding f2 by blast
  obtain m1 s1 where p1: "p_search False False b sd depth = (m1, s1)"
    by (cases "p_search False False b sd depth")
  obtain m2 s2 where p2: "p_search True False b sd depth = (m2, s2)"
    by (cases "p_search True False b sd depth")
  have "s2 = s1" using p_search_score_same[of b sd depth] p1 p2 by simp
  then show ?thesis using r1 r2 p1 p2 by auto
qed

theorem minimax_alpha_beta_same_score_witness:
  "wf_board InitialBoard \<and> (1::nat) \<le> 4 \<and> in_mode ''minimax'' \<lparr>self = SearchToolBox_init ''minimax'', ticks = 0\<rparr> \<and>
   in_mode ''alpha-beta'' \<lparr>self = SearchToolBox_init ''alpha-beta'', ticks = 0\<rparr> \<and>
   (\<exists>mv1 mv2 score b1 b2 w1' w2'.
      SearchDepth (\<lambda>k. 0) InitialBoard Black 4 1 \<lparr>self = SearchToolBox_init ''minimax'', ticks = 0\<rparr>
        = Some ((mv1, score), b1, w1') \<and>
      SearchDepth (\<lambda>k. 0) InitialBoard Black 4 1 \<lparr>self = SearchToolBox_init ''alpha-beta'', ticks = 0\<rparr>
        = Some ((mv2, score), b2, w2'))"
proof -
  have wf: "wf_board InitialBoard" by (simp add: InitialBoard_ok)
  have d: "(1::nat) \<le> 4" by simp
  have c: "\<forall>k. (\<lambda>k::nat. 0::real) k \<le> 1" by simp
  have m1: "in_mode ''minimax'' \<lparr>self = SearchToolBox_init ''minimax'', ticks = 0\<rparr>"
    by (simp add: in_mode_def SearchToolBox_init_def)
  have m2: "in_mode ''alpha-beta'' \<lparr>self = SearchToolBox_init ''alpha-beta'', ticks = 0\<rparr>"
    by (simp add: in_mode_def SearchToolBox_init_def)
  show ?thesis
    using wf d m1 m2 minimax_alpha_beta_same_score[OF wf d c m1 m2, of Black]
    by blast
qed

subsection \<open>Depth 1\<close>

text \<open>The heuristic values one ply down: for each legal move, the value of the board got
  by cloning the board and applying the move; \<open>None\<close> if an application raises.\<close>

definition one_ply_values :: "grid \<Rightarrow> side \<Rightarrow> int list option" where
  "one_ply_values b sd =
     those (map (\<lambda>m. map_option HeuristicScore (ApplyMove (Clone b) m)) (fst (AllLegalMoves b sd)))"

lemma those_map_Some:
  assumes "\<forall>m \<in> set ms. f m = Some (g m)"
  shows "those (map f ms) = Some (map g ms)"
  using assms by (induction ms) simp_all

lemma one_ply_values_eq:
  assumes "wf_board b"
  shows "one_ply_values b sd = Some (map (\<lambda>m. HeuristicScore (after b m)) (legal b sd))"
  unfolding one_ply_values_def legal_def[symmetric]
  by (rule those_map_Some) (use ApplyMove_after(1)[OF assms legal_applicable] in auto)

lemma fold_max_Max: "fold (\<lambda>m acc. max acc (f m)) ms (x :: int) = Max (set (x # map f ms))"
proof -
  have "(\<lambda>m acc. max acc (f m)) = (\<lambda>m. max (f m))"
    by (intro ext) (rule max.commute)
  then have "fold (\<lambda>m acc. max acc (f m)) ms x = fold max (map f ms) x"
    by (simp add: fold_map comp_def)
  then show ?thesis by (simp only: Max.set_eq_fold)
qed

lemma fold_min_Min: "fold (\<lambda>m acc. min acc (f m)) ms (x :: int) = Min (set (x # map f ms))"
proof -
  have "(\<lambda>m acc. min acc (f m)) = (\<lambda>m. min (f m))"
    by (intro ext) (rule min.commute)
  then have "fold (\<lambda>m acc. min acc (f m)) ms x = fold min (map f ms) x"
    by (simp add: fold_map comp_def)
  then show ?thesis by (simp only: Min.set_eq_fold)
qed

lemma Max_drop_low:
  assumes "A \<noteq> {}" and "finite A" and "\<forall>y \<in> A. (x :: int) < y"
  shows "Max (insert x A) = Max A"
proof -
  have "Max A \<in> A" using assms by simp
  then have "x < Max A" using assms(3) by blast
  then have "max x (Max A) = Max A" by simp
  then show ?thesis using Max_insert[OF assms(2,1), of x] by simp
qed

lemma Min_drop_high:
  assumes "A \<noteq> {}" and "finite A" and "\<forall>y \<in> A. y < (x :: int)"
  shows "Min (insert x A) = Min A"
proof -
  have "Min A \<in> A" using assms by simp
  then have "Min A < x" using assms(3) by blast
  then have "min x (Min A) = Min A" by simp
  then show ?thesis using Min_insert[OF assms(2,1), of x] by simp
qed

lemma root_depth0_max:
  "snd (p_root_loop ab ord b True 0 ms bm bs alpha beta) =
   fold (\<lambda>m acc. max acc (HeuristicScore (after b m))) ms bs"
  by (induction ms arbitrary: bm bs alpha) (auto simp: Let_def pv_min.simps max_def)

lemma root_depth0_min:
  "snd (p_root_loop ab ord b False 0 ms bm bs alpha beta) =
   fold (\<lambda>m acc. min acc (HeuristicScore (after b m))) ms bs"
  by (induction ms arbitrary: bm bs beta) (auto simp: Let_def pv_max.simps min_def)

lemma p_search_depth1:
  assumes "legal b sd \<noteq> []"
  shows "snd (p_search ab ord b sd 1) =
         Some (if sd = Black
               then Max (set (map (\<lambda>m. HeuristicScore (after b m)) (legal b sd)))
               else Min (set (map (\<lambda>m. HeuristicScore (after b m)) (legal b sd))))"
proof -
  let ?f = "\<lambda>m. HeuristicScore (after b m)"
  let ?oms = "ordered_moves ord b sd (legal b sd)"
  have set_eq: "set (map ?f ?oms) = set (map ?f (legal b sd))" by simp
  have ne: "set (map ?f (legal b sd)) \<noteq> {}" using assms by simp
  have lo: "\<forall>y \<in> set (map ?f (legal b sd)). - big < y" using HeuristicScore_big(1) by auto
  have hi: "\<forall>y \<in> set (map ?f (legal b sd)). y < big" using HeuristicScore_big(2) by auto
  show ?thesis
  proof (cases "sd = Black")
    case True
    have "snd (p_root_loop ab ord b True 0 ?oms None (- big) (- big) big) =
          Max (insert (- big) (set (map ?f ?oms)))"
      by (simp only: root_depth0_max fold_max_Max list.set)
    also have "\<dots> = Max (set (map ?f (legal b sd)))"
      unfolding set_eq using Max_drop_low[OF ne _ lo] by simp
    finally show ?thesis
      using assms True by (simp add: p_search_def case_prod_beta)
  next
    case False
    have "snd (p_root_loop ab ord b False 0 ?oms None big (- big) big) =
          Min (insert big (set (map ?f ?oms)))"
      by (simp only: root_depth0_min fold_min_Min list.set)
    also have "\<dots> = Min (set (map ?f (legal b sd)))"
      unfolding set_eq using Min_drop_high[OF ne _ hi] by simp
    finally show ?thesis
      using assms False by (simp add: p_search_def case_prod_beta)
  qed
qed

text \<open>
  Claim C8. For every 8x8 board and side with at least one legal move, in every mode, when
  no clock reading is past the deadline: the depth-1 search returns as score the maximum
  (side Black) or the minimum (side White) of the one-ply heuristic values.
\<close>

theorem depth_one_score:
  assumes "wf_board b" and "fst (AllLegalMoves b sd) \<noteq> []" and "\<forall>k. clk k \<le> deadline"
  shows "\<exists>mv b' w' vals.
           one_ply_values b sd = Some vals \<and>
           SearchDepth clk b sd 1 deadline w =
             Some ((mv, Some (if sd = Black then Max (set vals) else Min (set vals))), b', w')"
proof -
  have ne: "legal b sd \<noteq> []" using assms(2) by (simp add: legal_def)
  from SearchDepth_unhurried[OF assms(1,3), of sd 1 w] obtain w'
    where r: "SearchDepth clk b sd 1 deadline w =
                Some (p_search (UseAlphaBeta (self w)) (UseOrdering (self w)) b sd 1, b, w')"
    by blast
  obtain mv s where p: "p_search (UseAlphaBeta (self w)) (UseOrdering (self w)) b sd 1 = (mv, s)"
    by (cases "p_search (UseAlphaBeta (self w)) (UseOrdering (self w)) b sd 1")
  have s: "s = Some (if sd = Black
               then Max (set (map (\<lambda>m. HeuristicScore (after b m)) (legal b sd)))
               else Min (set (map (\<lambda>m. HeuristicScore (after b m)) (legal b sd))))"
    using p_search_depth1[OF ne, of "UseAlphaBeta (self w)" "UseOrdering (self w)"] p by simp
  show ?thesis
    using r one_ply_values_eq[OF assms(1), of sd] unfolding p s by blast
qed

text \<open>Black men on (2, 1) and (6, 1), White men on (1, 2) and (4, 5). Each side has four
  legal moves, two of them promotions, with two different one-ply values: 0 and -5 for
  Black, 3 and -2 for White.\<close>

definition four_men_board :: grid where
  "four_men_board = put (put (put (put empty_board 2 1 BMan) 6 1 BMan) 1 2 WMan) 4 5 WMan"

theorem depth_one_score_witness:
  "wf_board four_men_board \<and>
   length (fst (AllLegalMoves four_men_board Black)) = 4 \<and>
   length (fst (AllLegalMoves four_men_board White)) = 4 \<and>
   one_ply_values four_men_board Black = Some [0, 0, -5, -5] \<and>
   one_ply_values four_men_board White = Some [3, 3, -2, -2] \<and>
   (\<exists>mv b' w'.
      SearchDepth (\<lambda>k. 0) four_men_board Black 1 1
          \<lparr>self = SearchToolBox_init ''alpha-beta-ordering'', ticks = 0\<rparr> =
        Some ((mv, Some 0), b', w')) \<and>
   (\<exists>mv b' w'.
      SearchDepth (\<lambda>k. 0) four_men_board White 1 1
          \<lparr>self = SearchToolBox_init ''minimax'', ticks = 0\<rparr> =
        Some ((mv, Some (- 2)), b', w'))"
proof -
  have wf: "wf_board four_men_board" by code_simp
  have lb: "length (fst (AllLegalMoves four_men_board Black)) = 4" by code_simp
  have lw: "length (fst (AllLegalMoves four_men_board White)) = 4" by code_simp
  have vb: "one_ply_values four_men_board Black = Some [0, 0, -5, -5]" by code_simp
  have vw: "one_ply_values four_men_board White = Some [3, 3, -2, -2]" by code_simp
  have nb: "fst (AllLegalMoves four_men_board Black) \<noteq> []" using lb by auto
  have nw: "fst (AllLegalMoves four_men_board White) \<noteq> []" using lw by auto
  have c: "\<forall>k. (\<lambda>k::nat. 0::real) k \<le> 1" by simp
  have mb: "Max (set [0, 0, -5, -5 :: int]) = 0" by simp
  have mw: "Min (set [3, 3, -2, -2 :: int]) = - 2" by simp
  have sb: "\<exists>mv b' w'.
      SearchDepth (\<lambda>k. 0) four_men_board Black 1 1
          \<lparr>self = SearchToolBox_init ''alpha-beta-ordering'', ticks = 0\<rparr> =
        Some ((mv, Some 0), b', w')"
    using depth_one_score[OF wf nb c,
        of "\<lparr>self = SearchToolBox_init ''alpha-beta-ordering'', ticks = 0\<rparr>"]
    unfolding vb using mb by auto
  have sw: "\<exists>mv b' w'.
      SearchDepth (\<lambda>k. 0) four_men_board White 1 1
          \<lparr>self = SearchToolBox_init ''minimax'', ticks = 0\<rparr> =
        Some ((mv, Some (- 2)), b', w')"
    using depth_one_score[OF wf nw c, of "\<lparr>self = SearchToolBox_init ''minimax'', ticks = 0\<rparr>"]
    unfolding vw using mw by auto
  show ?thesis
    using wf lb lw vb vw sb sw by blast
qed

subsection \<open>Every value of the search is a heuristic value's size\<close>

lemma pv_max_loop_bound:
  assumes C: "\<And>bd a be. - 640 \<le> pv_min ab ord bd d a be \<and> pv_min ab ord bd d a be \<le> 640"
  shows "best \<le> 640 \<Longrightarrow> ms \<noteq> [] \<or> - 640 \<le> best \<Longrightarrow>
         - 640 \<le> pv_max_loop ab ord bd d ms best a be \<and> pv_max_loop ab ord bd d ms best a be \<le> 640"
proof (induction ms arbitrary: best a)
  case Nil
  then show ?case by simp
next
  case (Cons m ms)
  let ?val = "pv_min ab ord (after bd m) d a be"
  have v: "- 640 \<le> ?val \<and> ?val \<le> 640" by (rule C)
  have b: "max best ?val \<le> 640" "- 640 \<le> max best ?val" using v Cons.prems(1) by auto
  from Cons.IH[OF b(1), of "max a (max best ?val)"] b v show ?case
    by (auto simp: Let_def)
qed

lemma pv_min_loop_bound:
  assumes C: "\<And>bd a be. - 640 \<le> pv_max ab ord bd d a be \<and> pv_max ab ord bd d a be \<le> 640"
  shows "- 640 \<le> best \<Longrightarrow> ms \<noteq> [] \<or> best \<le> 640 \<Longrightarrow>
         - 640 \<le> pv_min_loop ab ord bd d ms best a be \<and> pv_min_loop ab ord bd d ms best a be \<le> 640"
proof (induction ms arbitrary: best be)
  case Nil
  then show ?case by simp
next
  case (Cons m ms)
  let ?val = "pv_max ab ord (after bd m) d a be"
  have v: "- 640 \<le> ?val \<and> ?val \<le> 640" by (rule C)
  have b: "- 640 \<le> min best ?val" "min best ?val \<le> 640" using v Cons.prems(1) by auto
  from Cons.IH[OF b(1), of "min be (min best ?val)"] b v show ?case
    by (auto simp: Let_def)
qed

lemma pv_bound:
  "(- 640 \<le> pv_max ab ord bd d a be \<and> pv_max ab ord bd d a be \<le> 640) \<and>
   (- 640 \<le> pv_min ab ord bd d a be \<and> pv_min ab ord bd d a be \<le> 640)"
proof (induction d arbitrary: bd a be)
  case 0
  show ?case using HeuristicScore_bound[of bd] by (simp add: pv_max.simps pv_min.simps abs_le_iff)
next
  case (Suc d)
  have h: "- 640 \<le> HeuristicScore bd \<and> HeuristicScore bd \<le> 640"
    using HeuristicScore_bound[of bd] by (simp add: abs_le_iff)
  have mx: "\<And>bd a be. - 640 \<le> pv_max ab ord bd d a be \<and> pv_max ab ord bd d a be \<le> 640"
    and mn: "\<And>bd a be. - 640 \<le> pv_min ab ord bd d a be \<and> pv_min ab ord bd d a be \<le> 640"
    using Suc.IH by simp_all
  have "- 640 \<le> pv_max ab ord bd (Suc d) a be \<and> pv_max ab ord bd (Suc d) a be \<le> 640"
    using h pv_max_loop_bound[OF mn, of "- big" "ordered_moves ord bd Black (legal bd Black)" bd a be]
    by (simp add: pv_max.simps[of _ _ _ "Suc d"] big_def)
  moreover have "- 640 \<le> pv_min ab ord bd (Suc d) a be \<and> pv_min ab ord bd (Suc d) a be \<le> 640"
    using h pv_min_loop_bound[OF mx, of big "ordered_moves ord bd White (legal bd White)" bd a be]
    by (simp add: pv_min.simps[of _ _ _ "Suc d"] big_def)
  ultimately show ?case by simp
qed

lemma p_root_loop_keeps_Some:
  "bm \<noteq> None \<Longrightarrow> fst (p_root_loop ab ord b mx d ms bm bs alpha beta) \<noteq> None"
  by (induction ms arbitrary: bm bs alpha beta) (auto simp: Let_def)

lemma p_search_finds_move:
  assumes "legal b sd \<noteq> []"
  shows "fst (p_search ab ord b sd depth) \<noteq> None"
proof -
  obtain m ms where oms: "ordered_moves ord b sd (legal b sd) = m # ms"
    using assms by (cases "ordered_moves ord b sd (legal b sd)") simp_all
  have lo: "- big < pv_min ab ord (after b m) (depth - 1) (- big) big"
    and hi: "pv_max ab ord (after b m) (depth - 1) (- big) big < big"
    using pv_bound[of ab ord "after b m" "depth - 1" "- big" big] by (simp_all add: big_def)
  show ?thesis
  proof (cases "sd = Black")
    case True
    then show ?thesis
      using assms lo oms p_root_loop_keeps_Some[of "Some m" ab ord b True "depth - 1" ms]
      by (simp add: p_search_def Let_def case_prod_beta)
  next
    case False
    then show ?thesis
      using assms hi oms p_root_loop_keeps_Some[of "Some m" ab ord b False "depth - 1" ms]
      by (simp add: p_search_def Let_def case_prod_beta)
  qed
qed

lemma p_search_no_moves: "legal b sd = [] \<Longrightarrow> p_search ab ord b sd depth = (None, None)"
  by (simp add: p_search_def)

subsection \<open>Iterative deepening\<close>

text \<open>
  How many depths of the deepening loop complete before the deadline: the iterations,
  from world \<open>w\<close> on, before the first one whose check \<^verbatim>\<open>time.time() > deadline\<close> after
  \<^verbatim>\<open>_SearchDepth\<close> fires.
\<close>

fun completed :: "(nat \<Rightarrow> real) \<Rightarrow> side \<Rightarrow> real \<Rightarrow> nat list \<Rightarrow> grid \<Rightarrow> world \<Rightarrow> nat" where
  "completed clk sd dl [] b w = 0"
| "completed clk sd dl (depth # depths) b w =
     (case SearchDepth clk b sd depth dl w of
        None \<Rightarrow> 0
      | Some (r, b1, w1) \<Rightarrow>
          if clk (ticks w1) > dl then 0
          else Suc (completed clk sd dl depths b1 (w1\<lparr>ticks := Suc (ticks w1)\<rparr>)))"

lemma completed_le: "completed clk sd dl ds b w \<le> length ds"
proof (induction ds arbitrary: b w)
  case Nil
  then show ?case by simp
next
  case (Cons depth ds)
  show ?case
  proof (cases "SearchDepth clk b sd depth dl w")
    case None
    then show ?thesis by simp
  next
    case (Some x)
    obtain r b1 w1 where x: "x = (r, b1, w1)" by (cases x)
    show ?thesis
      using Cons.IH[of b1 "w1\<lparr>ticks := Suc (ticks w1)\<rparr>"] by (simp add: Some x)
  qed
qed

lemma mono_calm:
  assumes "mono clk" and "clk n \<le> dl"
  shows "calm clk dl n"
  unfolding calm_def
proof (intro allI impI)
  fix j assume "j < n"
  then have "clk j \<le> clk n" using assms(1) by (simp add: monoD)
  then show "clk j \<le> dl" using assms(2) by simp
qed

lemma deepen_best_move:
  assumes wf: "wf_board b" and mono: "mono clk"
  shows "\<exists>bs' w'. deepen clk sd dl ds b bm bs w =
           Some ((if completed clk sd dl ds b w = 0 \<or> legal b sd = [] then bm
                  else fst (p_search (UseAlphaBeta (self w)) (UseOrdering (self w)) b sd
                              (ds ! (completed clk sd dl ds b w - 1))),
                 bs'), b, w')"
proof (induction ds arbitrary: bm bs w)
  case Nil
  then show ?case by simp
next
  case (Cons depth ds)
  from SearchDepth_total[OF wf, of clk sd depth dl w] obtain r w1
    where run: "SearchDepth clk b sd depth dl w = Some (r, b, w1)" and k1: "keeps w w1"
    by blast
  obtain move score where r: "r = (move, score)" by (cases r)
  let ?w2 = "w1\<lparr>ticks := Suc (ticks w1)\<rparr>"
  have fl: "UseAlphaBeta (self ?w2) = UseAlphaBeta (self w)"
           "UseOrdering (self ?w2) = UseOrdering (self w)"
    using k1 by (simp_all add: keeps_def)
  show ?case
  proof (cases "clk (ticks w1) > dl")
    case True
    then show ?thesis by (simp add: run r time_time_def)
  next
    case False
    then have "calm clk dl (ticks w1)" using mono_calm[OF mono] by simp
    from SearchDepth_pure[OF wf run this]
    have rp: "(move, score) =
              p_search (UseAlphaBeta (self w)) (UseOrdering (self w)) b sd depth"
      by (simp add: r)
    let ?K' = "completed clk sd dl ds b ?w2"
    have K: "completed clk sd dl (depth # ds) b w = Suc ?K'"
      using False by (simp add: run)
    show ?thesis
    proof (cases "legal b sd = []")
      case True
      then have "move = None" using rp p_search_no_moves[of b sd] by (metis fst_conv)
      then have "deepen clk sd dl (depth # ds) b bm bs w = deepen clk sd dl ds b bm bs ?w2"
        using False by (simp add: run r time_time_def)
      then show ?thesis
        using Cons.IH[of bm bs ?w2] True by simp
    next
      case ne: False
      have mv: "move \<noteq> None"
        using p_search_finds_move[OF ne, of "UseAlphaBeta (self w)" "UseOrdering (self w)" depth]
          rp by (metis fst_conv)
      then have step: "deepen clk sd dl (depth # ds) b bm bs w =
                       deepen clk sd dl ds b move score ?w2"
        using False by (simp add: run r time_time_def)
      have m: "move = fst (p_search (UseAlphaBeta (self w)) (UseOrdering (self w)) b sd depth)"
        using rp by (metis fst_conv)
      from Cons.IH[of move score ?w2] obtain bs' w' where
        ih: "deepen clk sd dl ds b move score ?w2 =
               Some ((if ?K' = 0 \<or> legal b sd = [] then move
                      else fst (p_search (UseAlphaBeta (self w)) (UseOrdering (self w)) b sd
                                  (ds ! (?K' - 1))),
                     bs'), b, w')"
        unfolding fl by blast
      have "(if ?K' = 0 \<or> legal b sd = [] then move
             else fst (p_search (UseAlphaBeta (self w)) (UseOrdering (self w)) b sd (ds ! (?K' - 1))))
            = fst (p_search (UseAlphaBeta (self w)) (UseOrdering (self w)) b sd
                     ((depth # ds) ! (Suc ?K' - 1)))"
        using m ne by (cases ?K') simp_all
      then show ?thesis
        unfolding step K using ih ne by simp
    qed
  qed
qed

text \<open>
  Claim C6. On an 8x8 board, with a clock that never runs backwards and a ply limit of at
  least 1, \<^verbatim>\<open>ChooseMove\<close> returns, and what it returns is fixed by the number \<open>K\<close> of depths
  of the loop over 1 .. \<^verbatim>\<open>PlyLimit\<close> that complete before the deadline, the first clock
  reading plus \<^verbatim>\<open>max(1, SecondsBudget)\<close>: with no legal move, \<^verbatim>\<open>None\<close>; with \<open>K = 0\<close>, the first
  legal move; otherwise the best move of the uninterrupted search at depth \<open>K\<close> (see
  \<open>SearchDepth_unhurried\<close>), so nothing of a depth abandoned on the way is kept.
\<close>

theorem ChooseMove_deepest_completed:
  assumes "wf_board b" and "mono clk" and "1 \<le> PlyLimit"
  shows "\<exists>w'. ChooseMove clk b sd SecondsBudget PlyLimit w =
           Some (let K = completed clk sd (clk (ticks w) + real_of_int (max 1 SecondsBudget))
                           [1..<nat PlyLimit + 1] b
                           (w\<lparr>self := (self w)\<lparr>Analytics := MoveAnalytics_init\<rparr>,
                              ticks := Suc (ticks w)\<rparr>)
                 in if fst (AllLegalMoves b sd) = [] then None
                    else if K = 0 then Some (hd (fst (AllLegalMoves b sd)))
                    else fst (p_search (UseAlphaBeta (self w)) (UseOrdering (self w)) b sd K),
                 b, w')"
proof -
  define ds where "ds = [1..<nat (max 1 PlyLimit) + 1]"
  have ds': "ds = [1..<nat PlyLimit + 1]" using assms(3) by (simp add: ds_def max_def)
  let ?w0 = "w\<lparr>self := (self w)\<lparr>Analytics := MoveAnalytics_init\<rparr>\<rparr>"
  let ?w1 = "?w0\<lparr>ticks := Suc (ticks ?w0)\<rparr>"
  let ?dl = "clk (ticks ?w0) + real_of_int (max 1 SecondsBudget)"
  define K where "K = completed clk sd ?dl ds b ?w1"
  have w1: "?w1 = w\<lparr>self := (self w)\<lparr>Analytics := MoveAnalytics_init\<rparr>, ticks := Suc (ticks w)\<rparr>"
    by simp
  have fl: "UseAlphaBeta (self ?w1) = UseAlphaBeta (self w)"
           "UseOrdering (self ?w1) = UseOrdering (self w)"
    by simp_all
  from deepen_best_move[OF assms(1,2), of sd ?dl ds None None ?w1]
  obtain bs' w2 where d: "deepen clk sd ?dl ds b None None ?w1 =
      Some ((if K = 0 \<or> legal b sd = [] then None
             else fst (p_search (UseAlphaBeta (self w)) (UseOrdering (self w)) b sd (ds ! (K - 1))),
            bs'), b, w2)"
    unfolding K_def fl by blast
  have len: "length ds = nat PlyLimit" unfolding ds' by (simp del: upt_Suc)
  have Kle: "K \<le> nat PlyLimit" unfolding K_def len[symmetric] by (rule completed_le)
  have nth: "K \<noteq> 0 \<Longrightarrow> ds ! (K - 1) = K"
    using Kle unfolding ds' by (simp del: upt_Suc)
  have found: "K \<noteq> 0 \<Longrightarrow> legal b sd \<noteq> [] \<Longrightarrow>
      fst (p_search (UseAlphaBeta (self w)) (UseOrdering (self w)) b sd K) \<noteq> None"
    using p_search_finds_move by blast
  have "ChooseMove clk b sd SecondsBudget PlyLimit w =
        Some (if legal b sd = [] then None
              else if K = 0 then Some (hd (legal b sd))
              else fst (p_search (UseAlphaBeta (self w)) (UseOrdering (self w)) b sd K), b, w2)"
    unfolding ChooseMove_def ds_def[symmetric]
    using d nth found by (auto simp: time_time_def Let_def AllLegalMoves_pair)
  then show ?thesis
    unfolding K_def ds' w1 legal_def Let_def by (auto simp del: upt_Suc)
qed

theorem ChooseMove_deepest_completed_witness:
  "wf_board InitialBoard \<and> mono (\<lambda>k. real k / 100) \<and> (1::int) \<le> 7 \<and>
   (\<exists>w'. ChooseMove (\<lambda>k. real k / 100) InitialBoard Black 2 7
            \<lparr>self = SearchToolBox_init ''alpha-beta-ordering'', ticks = 0\<rparr> =
      Some (let K = completed (\<lambda>k. real k / 100) Black
                      ((\<lambda>k. real k / 100) (ticks \<lparr>self = SearchToolBox_init ''alpha-beta-ordering'', ticks = 0\<rparr>)
                         + real_of_int (max 1 2))
                      [1..<nat 7 + 1] InitialBoard
                      (\<lparr>self = SearchToolBox_init ''alpha-beta-ordering'', ticks = 0\<rparr>
                         \<lparr>self := (self \<lparr>self = SearchToolBox_init ''alpha-beta-ordering'', ticks = 0\<rparr>)
                                    \<lparr>Analytics := MoveAnalytics_init\<rparr>,
                          ticks := Suc (ticks \<lparr>self = SearchToolBox_init ''alpha-beta-ordering'', ticks = 0\<rparr>)\<rparr>)
            in if fst (AllLegalMoves InitialBoard Black) = [] then None
               else if K = 0 then Some (hd (fst (AllLegalMoves InitialBoard Black)))
               else fst (p_search
                           (UseAlphaBeta (self \<lparr>self = SearchToolBox_init ''alpha-beta-ordering'', ticks = 0\<rparr>))
                           (UseOrdering (self \<lparr>self = SearchToolBox_init ''alpha-beta-ordering'', ticks = 0\<rparr>))
                           InitialBoard Black K),
            InitialBoard, w'))"
proof -
  have wf: "wf_board InitialBoard" by (simp add: InitialBoard_ok)
  have m: "mono (\<lambda>k. real k / 100)" by (rule monoI) (simp add: divide_right_mono)
  have p: "(1::int) \<le> 7" by simp
  show ?thesis
    using wf m p ChooseMove_deepest_completed[OF wf m p, of Black 2
        "\<lparr>self = SearchToolBox_init ''alpha-beta-ordering'', ticks = 0\<rparr>"]
    by blast
qed

subsection \<open>Movement directions\<close>

text \<open>A Black king alone on (4, 3).\<close>

definition lone_black_king_board :: grid where
  "lone_black_king_board = put empty_board 4 3 BKing"

text \<open>
  Claim C1. A King's direction set is exactly the four diagonal directions for both sides.
  The code does this for the White king, but for the Black king \<^verbatim>\<open>_Directions\<close> returns
  \<^verbatim>\<open>downs + [(-1, -1), (1, 1)]\<close>: the direction \<open>(1, 1)\<close> twice and \<open>(-1, 1)\<close> never. So a
  Black king alone in the middle of the board gets the step down-right twice and no step
  up-right.
\<close>

theorem Directions_BKing_misses_up_right:
  "Directions BKing = [(1, -1), (1, 1), (-1, -1), (1, 1)] \<and>
   (-1, 1) \<notin> set (Directions BKing) \<and>
   set (Directions WKing) = {(-1, -1), (-1, 1), (1, -1), (1, 1)} \<and>
   map TargetingMoveLocation (fst (AllLegalMoves lone_black_king_board Black)) =
     [(5, 2), (5, 4), (3, 2), (5, 4)]"
  by code_simp

end
